theory Spec2Isabelle
  imports Main "HOL-Library.Log_Nat" "HOL-Library.Word"
begin

section \<open>JavaScript numbers\<close>

text \<open>
  Every number of \<^verbatim>\<open>src/app/page.tsx\<close> is an IEEE-754 binary64 value. The finite ones are
  rationals, so a number is a \<^typ>\<open>rat\<close> and each arithmetic operation is the exact
  operation followed by rounding to 53 significant bits, to nearest, ties to even
  (\<open>fl53\<close>). The quantities of this program are quotients and products of pixel counts,
  list lengths and small constants, far inside the normal range, so overflow and
  subnormals are not modelled. A division by zero is written out where the source can
  reach one.
\<close>

type_synonym number = rat

definition rne :: "rat \<Rightarrow> int" where
  "rne m = (let f = \<lfloor>m\<rfloor>; r = m - of_int f in
     if r < 1 / 2 then f else if 1 / 2 < r then f + 1 else if even f then f else f + 1)"

definition ilog2 :: "rat \<Rightarrow> int" where
  "ilog2 x = (if 1 \<le> x then bitlen \<lfloor>x\<rfloor> - 1 else - bitlen (\<lceil>1 / x\<rceil> - 1))"

definition fl53 :: "rat \<Rightarrow> number" where
  "fl53 x = (if x = 0 then 0 else
     let e = ilog2 \<bar>x\<bar>; s = 2 powi (e - 52) in sgn x * of_int (rne (\<bar>x\<bar> / s)) * s)"

definition jadd :: "number \<Rightarrow> number \<Rightarrow> number" where
  "jadd a b = fl53 (a + b)"

definition jsub :: "number \<Rightarrow> number \<Rightarrow> number" where
  "jsub a b = fl53 (a - b)"

definition jmul :: "number \<Rightarrow> number \<Rightarrow> number" where
  "jmul a b = fl53 (a * b)"

text \<open>\<open>jdiv a b\<close> is \<^verbatim>\<open>a / b\<close> for a divisor that is not zero.\<close>

definition jdiv :: "number \<Rightarrow> number \<Rightarrow> number" where
  "jdiv a b = fl53 (a / b)"

text \<open>\<^verbatim>\<open>Math.floor\<close> of a finite number.\<close>

definition Math_floor :: "number \<Rightarrow> int" where
  "Math_floor x = \<lfloor>x\<rfloor>"

text \<open>
  Assigning a finite number to an \<^verbatim>\<open>unsigned long\<close> attribute such as
  \<^verbatim>\<open>canvas.width\<close>: the fraction is dropped, the integer is taken modulo \<open>2 ^ 32\<close>.
\<close>

definition to_unsigned_long :: "number \<Rightarrow> nat" where
  "to_unsigned_long x = nat ((if 0 \<le> x then \<lfloor>x\<rfloor> else - \<lfloor>- x\<rfloor>) mod 2 ^ 32)"

section \<open>Strings\<close>

text \<open>
  A JavaScript string is a sequence of UTF-16 code units; \<^verbatim>\<open>length\<close>,
  \<^verbatim>\<open>lastIndexOf\<close> and \<^verbatim>\<open>substring\<close> count code units. \<open>utf16\<close> writes an ASCII
  literal as such a sequence.
\<close>

type_synonym jsstring = "16 word list"

definition utf16 :: "string \<Rightarrow> jsstring" where
  "utf16 s = map of_char s"

definition DOT :: "16 word" where
  "DOT = 46"

definition COMMA :: "16 word" where
  "COMMA = 44"

text \<open>
  \<^verbatim>\<open>s.lastIndexOf(c)\<close> for a one-unit search string: the scan runs from the last
  position down to the first and answers \<open>-1\<close> when nothing matches.
\<close>

fun lastIndexFrom :: "jsstring \<Rightarrow> 16 word \<Rightarrow> nat \<Rightarrow> int" where
  "lastIndexFrom s c 0 = - 1"
| "lastIndexFrom s c (Suc k) = (if s ! k = c then int k else lastIndexFrom s c k)"

definition lastIndexOf :: "jsstring \<Rightarrow> 16 word \<Rightarrow> int" where
  "lastIndexOf s c = lastIndexFrom s c (length s)"

text \<open>
  \<^verbatim>\<open>s.substring(a, b)\<close>: both indices are clamped to \<open>0 .. length s\<close> and swapped when
  the first is the larger.
\<close>

definition substring :: "jsstring \<Rightarrow> int \<Rightarrow> int \<Rightarrow> jsstring" where
  "substring s a b =
     (let n = int (length s);
          a' = min (max a 0) n;
          b' = min (max b 0) n;
          lo = min a' b';
          hi = max a' b'
      in take (nat (hi - lo)) (drop (nat lo) s))"

text \<open>\<^verbatim>\<open>removeFileExtension\<close>, lines 107 to 111.\<close>

definition removeFileExtension :: "jsstring \<Rightarrow> jsstring" where
  "removeFileExtension filename =
     (let lastDotIndex = lastIndexOf filename DOT
      in if lastDotIndex = - 1 then filename else substring filename 0 lastDotIndex)"

text \<open>\<^verbatim>\<open>s.split(c)\<close> for a one-unit separator.\<close>

fun split :: "jsstring \<Rightarrow> 16 word \<Rightarrow> jsstring list" where
  "split [] c = [[]]"
| "split (x # xs) c =
     (if x = c then [] # split xs c
      else (case split xs c of [] \<Rightarrow> [[x]] | p # ps \<Rightarrow> (x # p) # ps))"

section \<open>Files and the selection state\<close>

record File =
  name :: jsstring
  content :: "8 word list"

text \<open>The three \<^verbatim>\<open>useState\<close> cells of the component, lines 12 to 14.\<close>

record ui_state =
  files :: "File list"
  isGenerating :: bool
  progress :: number

text \<open>\<^verbatim>\<open>onDrop\<close> (line 21) and \<^verbatim>\<open>handleRemoveFile\<close> (line 26) build a new array each.\<close>

definition onDrop :: "File list \<Rightarrow> ui_state \<Rightarrow> ui_state" where
  "onDrop acceptedFiles s = s\<lparr>files := files s @ acceptedFiles\<rparr>"

definition handleRemoveFile :: "nat \<Rightarrow> ui_state \<Rightarrow> ui_state" where
  "handleRemoveFile index s =
     s\<lparr>files := map snd (filter (\<lambda>(i, _). i \<noteq> index) (enumerate 0 (files s)))\<rparr>"

datatype ui_event = Drop "File list" | Remove nat

fun ui_step :: "ui_state \<Rightarrow> ui_event \<Rightarrow> ui_state" where
  "ui_step s (Drop acceptedFiles) = onDrop acceptedFiles s"
| "ui_step s (Remove index) = handleRemoveFile index s"

section \<open>Promises and the external collaborators\<close>

datatype error = Error string

text \<open>
  What an \<^verbatim>\<open>await\<close> can meet: a value, an exception, or a promise that never
  settles.
\<close>

datatype 'a promise = Resolved 'a | Rejected error | Pending

fun pbind :: "'a promise \<Rightarrow> ('a \<Rightarrow> 'b promise) \<Rightarrow> 'b promise" where
  "pbind (Resolved a) f = f a"
| "pbind (Rejected e) f = Rejected e"
| "pbind Pending f = Pending"

text \<open>A synchronous call inside the \<^verbatim>\<open>async\<close> function: an exception rejects it.\<close>

fun thrown :: "error + 'a \<Rightarrow> 'a promise" where
  "thrown (Inl e) = Rejected e"
| "thrown (Inr a) = Resolved a"

type_synonym dataUrl = jsstring

record image =
  img_src :: dataUrl
  img_width :: nat
  img_height :: nat

datatype font = Bold_px_Arial int | Font_unchanged

record text_state =
  ts_font :: font
  ts_fillStyle :: "nat \<times> nat \<times> nat \<times> number"
  ts_textAlign :: string
  ts_textBaseline :: string

datatype draw_op =
    DrawImage image number number "(number \<times> number) option"
  | FillText jsstring number number text_state

record canvas =
  canvas_width :: nat
  canvas_height :: nat
  drawn :: "draw_op list"

record drawn_image =
  di_bytes :: "8 word list"
  di_x :: number
  di_y :: number
  di_width :: number
  di_height :: number

record drawn_text =
  dt_text :: jsstring
  dt_x :: number
  dt_y :: number
  dt_size :: number
  dt_color :: "number \<times> number \<times> number"

record pdf_page =
  page_width :: number
  page_height :: number
  page_images :: "drawn_image list"
  page_texts :: "drawn_text list"

text \<open>
  The browser and \<^verbatim>\<open>pdf-lib\<close> are not part of the repository: they are the fields of
  \<open>env\<close>. \<open>loadImage\<close> answers the decoded size of an image whose \<^verbatim>\<open>load\<close> event
  fires and \<open>None\<close> for one whose \<^verbatim>\<open>load\<close> event never does.
\<close>

record env =
  readAsDataURL :: "File \<Rightarrow> dataUrl promise"
  loadImage :: "dataUrl \<Rightarrow> (nat \<times> nat) option"
  getContext :: bool
  toDataURL :: "canvas \<Rightarrow> string \<Rightarrow> number \<Rightarrow> dataUrl"
  atob :: "jsstring \<Rightarrow> error + jsstring"
  PDFDocument_create :: "unit promise"
  embedFont :: "unit promise"
  embedPng :: "8 word list \<Rightarrow> (nat \<times> nat) promise"
  widthOfTextAtSize :: "jsstring \<Rightarrow> number \<Rightarrow> error + number"
  save :: "pdf_page list \<Rightarrow> 8 word list promise"

section \<open>The image steps\<close>

text \<open>\<^verbatim>\<open>fileToDataUrl\<close>, lines 31 to 38.\<close>

definition fileToDataUrl :: "env \<Rightarrow> File \<Rightarrow> dataUrl promise" where
  "fileToDataUrl env file = readAsDataURL env file"

text \<open>
  Lines 47 to 54 of \<^verbatim>\<open>resizeImage\<close>. A quotient by a zero width or height is
  \<^verbatim>\<open>Infinity\<close>, and \<^verbatim>\<open>Math.min\<close> then answers the other quotient; both cannot be zero
  in the branch that scales.
\<close>

definition resizeImage_dims :: "nat \<Rightarrow> nat \<Rightarrow> number \<Rightarrow> number \<Rightarrow> number \<times> number" where
  "resizeImage_dims w h maxWidth maxHeight =
     (let width = of_nat w; height = of_nat h
      in if width > maxWidth \<or> height > maxHeight then
           let ratio = (if w = 0 then jdiv maxHeight height
                        else if h = 0 then jdiv maxWidth width
                        else min (jdiv maxWidth width) (jdiv maxHeight height))
           in (jmul width ratio, jmul height ratio)
         else (width, height))"

text \<open>The size of the canvas that \<^verbatim>\<open>resizeImage\<close> encodes, lines 57 to 59.\<close>

definition resizeImage_size :: "nat \<Rightarrow> nat \<Rightarrow> number \<Rightarrow> number \<Rightarrow> nat \<times> nat" where
  "resizeImage_size w h maxWidth maxHeight =
     (let (width, height) = resizeImage_dims w h maxWidth maxHeight
      in (to_unsigned_long width, to_unsigned_long height))"

definition resizeImage :: "env \<Rightarrow> dataUrl \<Rightarrow> number \<Rightarrow> number \<Rightarrow> dataUrl promise" where
  "resizeImage env dataUrl maxWidth maxHeight =
     (case loadImage env dataUrl of
        None \<Rightarrow> Pending
      | Some (w, h) \<Rightarrow>
          let img = \<lparr>img_src = dataUrl, img_width = w, img_height = h\<rparr>;
              (width, height) = resizeImage_dims w h maxWidth maxHeight;
              cv = \<lparr>canvas_width = to_unsigned_long width,
                    canvas_height = to_unsigned_long height,
                    drawn = (if getContext env
                             then [DrawImage img 0 0 (Some (width, height))] else [])\<rparr>
          in Resolved (toDataURL env cv ''image/jpeg'' (fl53 (8 / 10))))"

text \<open>
  Line 88 of \<^verbatim>\<open>addWatermark\<close>. With an empty text the quotient is \<^verbatim>\<open>Infinity\<close> or
  \<^verbatim>\<open>NaN\<close>, no finite size: \<open>None\<close>.
\<close>

definition fontSize :: "nat \<Rightarrow> jsstring \<Rightarrow> int option" where
  "fontSize w watermarkText =
     (if length watermarkText = 0 then None
      else Some (Math_floor (jmul (jdiv (of_nat w) (of_nat (length watermarkText)))
                                  (fl53 (16 / 10)))))"

definition addWatermark :: "env \<Rightarrow> dataUrl \<Rightarrow> jsstring \<Rightarrow> dataUrl promise" where
  "addWatermark env dataUrl watermarkText =
     (case loadImage env dataUrl of
        None \<Rightarrow> Pending
      | Some (w, h) \<Rightarrow>
          let img = \<lparr>img_src = dataUrl, img_width = w, img_height = h\<rparr>;
              st = \<lparr>ts_font = (case fontSize w watermarkText of
                                  Some px \<Rightarrow> Bold_px_Arial px | None \<Rightarrow> Font_unchanged),
                    ts_fillStyle = (200, 200, 200, fl53 (5 / 10)),
                    ts_textAlign = ''center'',
                    ts_textBaseline = ''middle''\<rparr>;
              cv = \<lparr>canvas_width = w, canvas_height = h,
                    drawn = (if getContext env
                             then [DrawImage img 0 0 None,
                                   FillText watermarkText (jdiv (of_nat w) 2)
                                     (jdiv (of_nat h) 2) st]
                             else [])\<rparr>
          in Resolved (toDataURL env cv ''image/png'' (fl53 (8 / 10))))"

text \<open>
  Lines 143 and 144: the part of the data URL after its first comma, decoded from
  base64, each code unit of the result cut to a byte. \<^verbatim>\<open>atob(undefined)\<close> reads the
  text \<^verbatim>\<open>undefined\<close>.
\<close>

definition dataUrlToBytes :: "env \<Rightarrow> dataUrl \<Rightarrow> error + 8 word list" where
  "dataUrlToBytes env watermarkedDataUrl =
     (let base64Data = (case split watermarkedDataUrl COMMA of
                          _ # b # _ \<Rightarrow> b | _ \<Rightarrow> utf16 ''undefined'')
      in case atob env base64Data of
           Inl e \<Rightarrow> Inl e
         | Inr binary \<Rightarrow> Inr (map ucast binary))"

section \<open>The page\<close>

text \<open>\<^verbatim>\<open>image.scale(factor)\<close> of \<^verbatim>\<open>pdf-lib\<close>: both sides times the factor.\<close>

definition scale :: "nat \<times> nat \<Rightarrow> number \<Rightarrow> number \<times> number" where
  "scale img factor = (jmul (of_nat (fst img)) factor, jmul (of_nat (snd img)) factor)"

definition addPage :: "number \<times> number \<Rightarrow> pdf_page" where
  "addPage dims =
     \<lparr>page_width = fst dims, page_height = snd dims, page_images = [], page_texts = []\<rparr>"

definition drawImage :: "pdf_page \<Rightarrow> drawn_image \<Rightarrow> pdf_page" where
  "drawImage page d = page\<lparr>page_images := page_images page @ [d]\<rparr>"

definition drawText :: "pdf_page \<Rightarrow> drawn_text \<Rightarrow> pdf_page" where
  "drawText page d = page\<lparr>page_texts := page_texts page @ [d]\<rparr>"

text \<open>
  Lines 150 to 171, one page from an embedded image, the file's name and the
  collaborators. A page is visible outside the run only through the saved document, so
  the page that an exception leaves half drawn is not kept.
\<close>

definition assemble_page ::
  "env \<Rightarrow> 8 word list \<Rightarrow> nat \<times> nat \<Rightarrow> jsstring \<Rightarrow> pdf_page promise" where
  "assemble_page env imageBytes img file_name =
     (let (width, height) = scale img 1;
          page = addPage (jadd width 100, jadd height 150);
          page = drawImage page
                   \<lparr>di_bytes = imageBytes, di_x = 50, di_y = 100,
                    di_width = width, di_height = height\<rparr>;
          fileName = removeFileExtension file_name;
          titleFontSize = 28
      in pbind (thrown (widthOfTextAtSize env fileName titleFontSize)) (\<lambda>titleWidth.
           Resolved (drawText page
                       \<lparr>dt_text = fileName,
                        dt_x = jdiv (jsub (page_width page) titleWidth) 2,
                        dt_y = 50,
                        dt_size = titleFontSize,
                        dt_color = (0, 0, 0)\<rparr>)))"

text \<open>The body of the loop without its progress report, lines 133 to 171.\<close>

definition process_file :: "env \<Rightarrow> File \<Rightarrow> pdf_page promise" where
  "process_file env file =
     pbind (fileToDataUrl env file) (\<lambda>dataUrl.
     pbind (resizeImage env dataUrl 1600 1200) (\<lambda>resizedDataUrl.
     pbind (addWatermark env resizedDataUrl (utf16 ''Cleide Fotos'')) (\<lambda>watermarkedDataUrl.
     pbind (thrown (dataUrlToBytes env watermarkedDataUrl)) (\<lambda>imageBytes.
     pbind (embedPng env imageBytes) (\<lambda>img.
       assemble_page env imageBytes img (name file))))))"

section \<open>The run\<close>

record download =
  dl_download :: jsstring
  dl_type :: string
  dl_bytes :: "8 word list"

text \<open>
  What one call of \<^verbatim>\<open>handleGeneratePDF\<close> leaves behind: the component's state, the
  arguments of its \<^verbatim>\<open>setProgress\<close> calls in order, the document that
  \<^verbatim>\<open>pdfDoc.save()\<close> serialized, the downloads it started, what it wrote with
  \<^verbatim>\<open>console.error\<close>, and whether the call came to its end (\<open>settled\<close>) or waits
  forever on a promise.
\<close>

record outcome =
  ui :: ui_state
  reports :: "number list"
  document :: "pdf_page list option"
  downloads :: "download list"
  console :: "error list"
  settled :: bool

definition setIsGenerating :: "bool \<Rightarrow> outcome \<Rightarrow> outcome" where
  "setIsGenerating b st = st\<lparr>ui := (ui st)\<lparr>isGenerating := b\<rparr>\<rparr>"

definition setProgress :: "number \<Rightarrow> outcome \<Rightarrow> outcome" where
  "setProgress v st = st\<lparr>ui := (ui st)\<lparr>progress := v\<rparr>, reports := reports st @ [v]\<rparr>"

text \<open>
  While the run waits, the user may drop and remove files. \<open>deliver\<close> applies such
  events to the component's state; the run itself goes on with the array \<^verbatim>\<open>files\<close> of
  the render that created its closure.
\<close>

definition deliver :: "ui_event list \<Rightarrow> outcome \<Rightarrow> outcome" where
  "deliver evs st = st\<lparr>ui := foldl ui_step (ui st) evs\<rparr>"

text \<open>
  The loop of lines 127 to 172 from index \<open>i\<close> on. \<open>sched i\<close> are the events that
  arrive while entry \<open>i\<close> is processed.
\<close>

function process_files ::
  "env \<Rightarrow> (nat \<Rightarrow> ui_event list) \<Rightarrow> File list \<Rightarrow> nat \<Rightarrow> pdf_page list \<Rightarrow> outcome
     \<Rightarrow> pdf_page list promise \<times> outcome" where
  "process_files env sched fs i pdfDoc st =
     (if i < length fs then
        let file = fs ! i;
            st1 = deliver (sched i)
                    (setProgress (jmul (jdiv (of_nat i) (of_nat (length fs))) 90) st)
        in (case process_file env file of
              Resolved page \<Rightarrow> process_files env sched fs (Suc i) (pdfDoc @ [page]) st1
            | Rejected e \<Rightarrow> (Rejected e, st1)
            | Pending \<Rightarrow> (Pending, st1))
      else (Resolved pdfDoc, st))"
  by pat_completeness auto
termination
  by (relation "measure (\<lambda>(env, sched, fs, i, pdfDoc, st). length fs - i)") auto

text \<open>Lines 178 to 187.\<close>

definition start_download :: "8 word list \<Rightarrow> outcome \<Rightarrow> outcome" where
  "start_download pdfBytes st =
     st\<lparr>downloads := downloads st @
          [\<lparr>dl_download = utf16 ''images.pdf'', dl_type = ''application/pdf'',
            dl_bytes = pdfBytes\<rparr>]\<rparr>"

text \<open>The \<^verbatim>\<open>try\<close> block, lines 119 to 187. \<open>sched (length fs)\<close> arrives during the save.\<close>

definition try_block ::
  "env \<Rightarrow> (nat \<Rightarrow> ui_event list) \<Rightarrow> File list \<Rightarrow> outcome \<Rightarrow> unit promise \<times> outcome" where
  "try_block env sched fs st =
     (case PDFDocument_create env of
        Rejected e \<Rightarrow> (Rejected e, st)
      | Pending \<Rightarrow> (Pending, st)
      | Resolved _ \<Rightarrow>
     (case embedFont env of
        Rejected e \<Rightarrow> (Rejected e, st)
      | Pending \<Rightarrow> (Pending, st)
      | Resolved _ \<Rightarrow>
     (case process_files env sched fs 0 [] st of
        (Rejected e, st1) \<Rightarrow> (Rejected e, st1)
      | (Pending, st1) \<Rightarrow> (Pending, st1)
      | (Resolved pdfDoc, st1) \<Rightarrow>
          let st2 = deliver (sched (length fs)) st1
          in (case save env pdfDoc of
                Rejected e \<Rightarrow> (Rejected e, st2)
              | Pending \<Rightarrow> (Pending, st2)
              | Resolved pdfBytes \<Rightarrow>
                  (Resolved (),
                   start_download pdfBytes
                     (setProgress 100 (st2\<lparr>document := Some pdfDoc\<rparr>)))))))"

text \<open>
  \<^verbatim>\<open>handleGeneratePDF\<close>, lines 113 to 193, called in the state \<open>s\<close>.
\<close>

definition handleGeneratePDF :: "env \<Rightarrow> (nat \<Rightarrow> ui_event list) \<Rightarrow> ui_state \<Rightarrow> outcome" where
  "handleGeneratePDF env sched s =
     (let fs = files s;
          st = \<lparr>ui = s, reports = [], document = None, downloads = [], console = [],
                settled = True\<rparr>
      in if length fs = 0 then st
         else
           (case try_block env sched fs (setProgress 0 (setIsGenerating True st)) of
              (Resolved _, st1) \<Rightarrow> setIsGenerating False st1
            | (Rejected e, st1) \<Rightarrow> setIsGenerating False (st1\<lparr>console := console st1 @ [e]\<rparr>)
            | (Pending, st1) \<Rightarrow> st1\<lparr>settled := False\<rparr>))"

section \<open>A sample environment\<close>

text \<open>
  Collaborators for running the definitions on concrete files: a file's first two bytes
  stand for the width and height of its picture, a data URL carries the size of its
  canvas before and after the comma, a file with no bytes cannot be read, and one with a
  single byte does not decode.
\<close>

definition sample_env :: env where
  "sample_env =
     \<lparr>readAsDataURL = (\<lambda>f. if content f = [] then Rejected (Error ''unreadable'')
                           else Resolved (map ucast (content f))),
      loadImage = (\<lambda>u. case u of w # h # _ \<Rightarrow> Some (unat w, unat h) | _ \<Rightarrow> None),
      getContext = True,
      toDataURL = (\<lambda>cv mime q. [of_nat (canvas_width cv), of_nat (canvas_height cv), COMMA,
                                 of_nat (canvas_width cv), of_nat (canvas_height cv)]),
      atob = (\<lambda>b. Inr b),
      PDFDocument_create = Resolved (),
      embedFont = Resolved (),
      embedPng = (\<lambda>bs. case bs of w # h # _ \<Rightarrow> Resolved (unat w, unat h)
                                | _ \<Rightarrow> Rejected (Error ''not a PNG'')),
      widthOfTextAtSize = (\<lambda>t sz. Inr (of_nat (length t) * sz / 2)),
      save = (\<lambda>pdfDoc. Resolved [of_nat (length pdfDoc)])\<rparr>"

definition sample_file :: "string \<Rightarrow> nat \<Rightarrow> nat \<Rightarrow> File" where
  "sample_file n w h = \<lparr>name = utf16 n, content = [of_nat w, of_nat h]\<rparr>"

definition no_events :: "nat \<Rightarrow> ui_event list" where
  "no_events i = []"

definition idle :: "File list \<Rightarrow> ui_state" where
  "idle fs = \<lparr>files = fs, isGenerating = False, progress = 0\<rparr>"

text \<open>
  Four files that decode, one that does not and one that cannot be read, a selection
  whose second entry is the one or the other, and a user who removes and drops files
  while a run is under way.
\<close>

definition four_files :: "File list" where
  "four_files = [sample_file ''photo.jpg'' 200 100, sample_file ''archive.tar.gz'' 10 20,
                 sample_file ''.env'' 30 40, sample_file ''noext'' 50 60]"

definition broken_file :: File where
  "broken_file = \<lparr>name = utf16 ''broken.png'', content = [1]\<rparr>"

definition second_broken :: "File list" where
  "second_broken = [sample_file ''photo.jpg'' 200 100, broken_file,
                    sample_file ''.env'' 30 40, sample_file ''noext'' 50 60]"

definition unreadable_file :: File where
  "unreadable_file = \<lparr>name = utf16 ''unreadable.png'', content = []\<rparr>"

definition second_unreadable :: "File list" where
  "second_unreadable = [sample_file ''photo.jpg'' 200 100, unreadable_file,
                        sample_file ''.env'' 30 40, sample_file ''noext'' 50 60]"

definition busy_user :: "nat \<Rightarrow> ui_event list" where
  "busy_user i = (if i = 0 then [Remove 1, Drop [broken_file]] else [Remove 0])"

section \<open>The ratio as the specification words it\<close>

text \<open>
  \<open>ratio = min(maxWidth / origW, maxHeight / origH)\<close> in exact arithmetic, to compare
  the doubles of \<open>resizeImage_dims\<close> with.
\<close>

definition spec_ratio :: "nat \<Rightarrow> nat \<Rightarrow> rat" where
  "spec_ratio w h = min (1600 / of_nat w) (1200 / of_nat h)"


section \<open>Notation for the proofs\<close>

text \<open>The spacing of the doubles in the binade of a positive \<open>x\<close>.\<close>

abbreviation ulp :: "rat \<Rightarrow> rat" where
  "ulp x \<equiv> 2 powi (ilog2 x - 52)"

text \<open>The progress that line 131 reports for entry \<open>i\<close> of \<open>n\<close>.\<close>

abbreviation entry_progress :: "nat \<Rightarrow> nat \<Rightarrow> number" where
  "entry_progress n i \<equiv> jmul (jdiv (of_nat i) (of_nat n)) 90"

text \<open>The state in which the \<^verbatim>\<open>try\<close> block starts, lines 116 and 117.\<close>

abbreviation start :: "ui_state \<Rightarrow> outcome" where
  "start s \<equiv> setProgress 0 (setIsGenerating True
     \<lparr>ui = s, reports = [], document = None, downloads = [], console = [], settled = True\<rparr>)"

abbreviation images_pdf :: "8 word list \<Rightarrow> download" where
  "images_pdf b \<equiv>
     \<lparr>dl_download = utf16 ''images.pdf'', dl_type = ''application/pdf'', dl_bytes = b\<rparr>"

section \<open>Rounding to a double\<close>

lemma ilog2_bounds:
  assumes "0 < x"
  shows "2 powi ilog2 x \<le> x \<and> x < 2 powi (ilog2 x + 1)"
proof (cases "1 \<le> x")
  case True
  define n where "n = \<lfloor>x\<rfloor>"
  have n1: "1 \<le> n" using True by (simp add: n_def)
  then have n0: "0 < n" by simp
  have bl: "1 \<le> bitlen n" using n0 by (simp add: bitlen_alt_def)
  from bitlen_bounds [OF n0]
  have b: "2 ^ nat (bitlen n - 1) \<le> n" "n < 2 ^ nat (bitlen n)" by simp_all
  have e: "ilog2 x = bitlen n - 1" using True by (simp add: ilog2_def n_def)
  have "(2::rat) powi (bitlen n - 1) = of_int (2 ^ nat (bitlen n - 1))"
    using bl by (simp add: power_int_def)
  also have "\<dots> \<le> of_int n" using b(1) by (simp only: of_int_le_iff)
  also have "\<dots> \<le> x" by (simp add: n_def)
  finally have lo: "2 powi ilog2 x \<le> x" by (simp add: e)
  have "x < of_int (n + 1)" using floor_correct [of x] by (simp add: n_def)
  also have "\<dots> \<le> of_int (2 ^ nat (bitlen n))" using b(2) by (simp only: of_int_le_iff; simp)
  also have "\<dots> = (2::rat) powi (bitlen n)" using bl by (simp add: power_int_def)
  finally have "x < 2 powi (ilog2 x + 1)" by (simp add: e)
  with lo show ?thesis ..
next
  case False
  define y where "y = 1 / x"
  define k where "k = \<lceil>y\<rceil> - 1"
  from False assms have y1: "1 < y" by (simp add: y_def)
  have ky: "of_int k < y" "y \<le> of_int k + 1"
    using ceiling_correct [of y] by (simp_all add: k_def)
  from y1 have "2 \<le> \<lceil>y\<rceil>" by linarith
  then have k0: "0 < k" by (simp add: k_def)
  have bl: "1 \<le> bitlen k" using k0 by (simp add: bitlen_alt_def)
  from bitlen_bounds [OF k0]
  have b: "2 ^ nat (bitlen k - 1) \<le> k" "k < 2 ^ nat (bitlen k)" by simp_all
  have e: "ilog2 x = - bitlen k" using False by (simp add: ilog2_def k_def y_def)
  have xy: "x = 1 / y" using assms by (simp add: y_def)
  have "y \<le> of_int (k + 1)" using ky by simp
  also have "\<dots> \<le> of_int (2 ^ nat (bitlen k))" using b(2) by (simp only: of_int_le_iff; simp)
  also have "\<dots> = (2::rat) ^ nat (bitlen k)" by simp
  finally have up: "y \<le> 2 ^ nat (bitlen k)" .
  have "(2::rat) powi (- bitlen k) = 1 / 2 ^ nat (bitlen k)"
    using bl by (simp add: power_int_def field_simps)
  also have "\<dots> \<le> 1 / y" using up y1 by (simp add: field_simps)
  finally have "2 powi (- bitlen k) \<le> x" by (simp only: xy)
  then have lo: "2 powi ilog2 x \<le> x" by (simp only: e)
  have "(2::rat) ^ nat (bitlen k - 1) = of_int (2 ^ nat (bitlen k - 1))" by simp
  also have "\<dots> \<le> of_int k" using b(1) by (simp only: of_int_le_iff)
  also have "\<dots> < y" by (rule ky)
  finally have dn: "2 ^ nat (bitlen k - 1) < y" .
  have "(2::rat) powi (- bitlen k + 1) = 1 / 2 ^ nat (bitlen k - 1)"
  proof (cases "bitlen k = 1")
    case True
    then show ?thesis by simp
  next
    case False
    with bl have "- bitlen k + 1 < 0" by simp
    then show ?thesis
      by (simp add: power_int_def field_simps)
  qed
  moreover have "1 / y < 1 / 2 ^ nat (bitlen k - 1)"
    using dn y1 by (simp add: field_simps)
  ultimately have "1 / y < 2 powi (- bitlen k + 1)" by simp
  then have "x < 2 powi (- bitlen k + 1)" by (simp only: xy)
  then have "x < 2 powi (ilog2 x + 1)" by (simp only: e)
  with lo show ?thesis ..
qed

lemma ilog2_unique:
  assumes "0 < x" "2 powi e \<le> x" "x < 2 powi (e + 1)"
  shows "ilog2 x = e"
proof (rule ccontr)
  assume ne: "ilog2 x \<noteq> e"
  from ilog2_bounds [OF assms(1)]
  have b: "2 powi ilog2 x \<le> x" "x < 2 powi (ilog2 x + 1)" by simp_all
  show False
  proof (cases "ilog2 x < e")
    case True
    then have "(2::rat) powi (ilog2 x + 1) \<le> 2 powi e"
      by (intro power_int_increasing) simp_all
    with b(2) assms(2) show False by simp
  next
    case False
    with ne have "e + 1 \<le> ilog2 x" by simp
    then have "(2::rat) powi (e + 1) \<le> 2 powi ilog2 x"
      by (intro power_int_increasing) simp_all
    with b(1) assms(3) show False by simp
  qed
qed

lemma ilog2_mono:
  assumes "0 < x" "x \<le> y"
  shows "ilog2 x \<le> ilog2 y"
proof (rule ccontr)
  assume "\<not> ilog2 x \<le> ilog2 y"
  then have "ilog2 y + 1 \<le> ilog2 x" by simp
  then have "(2::rat) powi (ilog2 y + 1) \<le> 2 powi ilog2 x"
    by (intro power_int_increasing) simp_all
  moreover from assms have "0 < y" by simp
  ultimately show False
    using ilog2_bounds [OF assms(1)] ilog2_bounds [OF \<open>0 < y\<close>] assms(2) by simp
qed

lemma rne_of_int [simp]: "rne (of_int k) = k"
  by (simp add: rne_def)

lemma rne_floor: "\<lfloor>m\<rfloor> \<le> rne m \<and> rne m \<le> \<lfloor>m\<rfloor> + 1"
  by (simp add: rne_def Let_def)

lemma rne_error: "\<bar>of_int (rne m) - m\<bar> \<le> 1 / 2"
proof -
  define r where "r = m - of_int \<lfloor>m\<rfloor>"
  have r: "0 \<le> r" "r < 1" unfolding r_def by linarith+
  have m: "m = of_int \<lfloor>m\<rfloor> + r" by (simp add: r_def)
  have "\<bar>of_int (rne m) - (of_int \<lfloor>m\<rfloor> + r)\<bar> \<le> 1 / 2"
    using r unfolding rne_def Let_def r_def [symmetric]
    by (auto simp: abs_if not_less)
  with m show ?thesis by simp
qed

lemma rne_mono:
  assumes "m \<le> m'"
  shows "rne m \<le> rne m'"
proof (cases "\<lfloor>m\<rfloor> = \<lfloor>m'\<rfloor>")
  case True
  with assms show ?thesis
    by (auto simp: rne_def Let_def)
next
  case False
  with assms have "\<lfloor>m\<rfloor> + 1 \<le> \<lfloor>m'\<rfloor>"
    using floor_mono [OF assms] by simp
  with rne_floor [of m] rne_floor [of m'] show ?thesis by simp
qed

lemma rne_numeral [simp]: "rne (numeral n) = numeral n"
  using rne_of_int [of "numeral n"] by simp

lemma fl53_pos: "0 < x \<Longrightarrow> fl53 x = of_int (rne (x / ulp x)) * ulp x"
  by (simp add: fl53_def Let_def)

lemma ulp_pos: "0 < ulp x"
  by simp

lemma ulp_eq: "ulp x = 2 powi ilog2 x / 2 ^ 52"
  by (simp add: power_int_diff)

lemma mantissa_bounds:
  assumes "0 < x"
  shows "2 ^ 52 \<le> x / ulp x" "x / ulp x < 2 ^ 53"
proof -
  let ?p = "(2::rat) powi ilog2 x"
  have p: "0 < ?p" by simp
  from ilog2_bounds [OF assms] have b: "?p \<le> x" "x < ?p * 2"
    by (simp_all add: power_int_add)
  have u: "x / ulp x = x * 2 ^ 52 / ?p"
    using assms by (simp add: ulp_eq)
  have "2 ^ 52 * ?p \<le> x * 2 ^ 52" using b(1) by simp
  then show "2 ^ 52 \<le> x / ulp x"
    unfolding u using p by (simp add: pos_le_divide_eq)
  have "x * 2 ^ 52 < 2 ^ 53 * ?p" using b(2) by simp
  then show "x / ulp x < 2 ^ 53"
    unfolding u using p by (simp add: pos_divide_less_eq)
qed

lemma fl53_error:
  assumes "0 < x"
  shows "\<bar>fl53 x - x\<bar> \<le> ulp x / 2"
proof -
  let ?m = "x / ulp x"
  have "fl53 x - x = (of_int (rne ?m) - ?m) * ulp x"
    using assms by (simp add: fl53_pos algebra_simps)
  then have "\<bar>fl53 x - x\<bar> = \<bar>of_int (rne ?m) - ?m\<bar> * ulp x"
    by (simp add: abs_mult)
  also have "\<dots> \<le> 1 / 2 * ulp x"
    by (intro mult_right_mono rne_error) simp
  finally show ?thesis by simp
qed

lemma ulp_le:
  assumes "0 < x"
  shows "ulp x \<le> x / 2 ^ 52"
  using ilog2_bounds [OF assms] assms by (simp add: ulp_eq divide_right_mono)

lemma fl53_0 [simp]: "fl53 0 = 0"
  by (simp add: fl53_def)

lemma fl53_rel:
  assumes "0 \<le> x"
  shows "\<bar>fl53 x - x\<bar> \<le> x / 2 ^ 53"
proof (cases "x = 0")
  case True
  then show ?thesis by simp
next
  case False
  with assms have x: "0 < x" by simp
  from fl53_error [OF x] ulp_le [OF x] show ?thesis by simp
qed

lemma abs_diff_bounds: "\<bar>a - x\<bar> \<le> u \<Longrightarrow> a \<le> x + u \<and> x - u \<le> (a::rat)"
  by linarith

lemma fl53_upper: "0 \<le> x \<Longrightarrow> fl53 x \<le> x + x / 2 ^ 53"
  using abs_diff_bounds [OF fl53_rel] by blast

lemma fl53_lower: "0 \<le> x \<Longrightarrow> x - x / 2 ^ 53 \<le> fl53 x"
  using abs_diff_bounds [OF fl53_rel] by blast

lemma fl53_range:
  assumes "0 < x"
  shows "2 powi ilog2 x \<le> fl53 x" "fl53 x \<le> 2 powi (ilog2 x + 1)"
proof -
  let ?m = "x / ulp x"
  from mantissa_bounds [OF assms] have m: "of_int (2 ^ 52) \<le> ?m" "?m \<le> of_int (2 ^ 53)"
    by simp_all
  from rne_mono [OF m(1)] have "2 ^ 52 \<le> rne ?m" by (simp only: rne_of_int)
  then have "(of_int (2 ^ 52) :: rat) \<le> of_int (rne ?m)" by (simp only: of_int_le_iff)
  then have lo: "(2 ^ 52 :: rat) \<le> of_int (rne ?m)" by simp
  from rne_mono [OF m(2)] have "rne ?m \<le> 2 ^ 53" by (simp only: rne_of_int)
  then have "(of_int (rne ?m) :: rat) \<le> of_int (2 ^ 53)" by (simp only: of_int_le_iff)
  then have hi: "(of_int (rne ?m) :: rat) \<le> 2 ^ 53" by simp
  have "2 powi ilog2 x = 2 ^ 52 * ulp x" by (simp add: ulp_eq)
  also have "\<dots> \<le> of_int (rne ?m) * ulp x"
    using lo by (intro mult_right_mono) simp_all
  finally show "2 powi ilog2 x \<le> fl53 x" using assms by (simp add: fl53_pos)
  have "of_int (rne ?m) * ulp x \<le> 2 ^ 53 * ulp x"
    using hi by (intro mult_right_mono) simp_all
  also have "\<dots> = 2 powi (ilog2 x + 1)" by (simp add: ulp_eq power_int_add)
  finally show "fl53 x \<le> 2 powi (ilog2 x + 1)" using assms by (simp add: fl53_pos)
qed

lemma fl53_nonneg: "0 \<le> x \<Longrightarrow> 0 \<le> fl53 x"
proof (cases "x = 0")
  case False
  assume "0 \<le> x"
  with False have x: "0 < x" by simp
  have "(0::rat) \<le> 2 powi ilog2 x" by simp
  with fl53_range(1) [OF x] show ?thesis by linarith
qed simp

lemma fl53_mono:
  assumes "0 \<le> x" "x \<le> y"
  shows "fl53 x \<le> fl53 y"
proof (cases "x = 0")
  case True
  with assms fl53_nonneg [of y] show ?thesis by simp
next
  case False
  with assms have x: "0 < x" and y: "0 < y" by simp_all
  from ilog2_mono [OF x assms(2)] have le: "ilog2 x \<le> ilog2 y" .
  show ?thesis
  proof (cases "ilog2 x = ilog2 y")
    case True
    then have u: "ulp x = ulp y" using x y by simp
    have "x / ulp y \<le> y / ulp y" using assms(2) by (simp add: divide_right_mono)
    from rne_mono [OF this] have "(of_int (rne (x / ulp y)) :: rat) \<le> of_int (rne (y / ulp y))"
      by simp
    then have "of_int (rne (x / ulp y)) * ulp y \<le> of_int (rne (y / ulp y)) * ulp y"
      by (intro mult_right_mono) simp_all
    then show ?thesis using x y u by (simp add: fl53_pos)
  next
    case False
    with le have "ilog2 x + 1 \<le> ilog2 y" by simp
    then have "(2::rat) powi (ilog2 x + 1) \<le> 2 powi ilog2 y"
      by (intro power_int_increasing) simp_all
    with fl53_range(2) [OF x] fl53_range(1) [OF y] show ?thesis by linarith
  qed
qed

lemma fl53_exact:
  assumes "0 < k" "k < 2 ^ 53"
  shows "fl53 (of_int k * 2 powi j) = of_int k * 2 powi j"
proof -
  let ?x = "of_int k * (2::rat) powi j"
  have x: "0 < ?x" using assms(1) by simp
  have "?x < 2 ^ 53 * 2 powi j"
  proof (intro mult_strict_right_mono)
    from assms(2) have "(of_int k :: rat) < of_int (2 ^ 53)" by (simp only: of_int_less_iff)
    then show "(of_int k :: rat) < 2 ^ 53" by simp
  qed simp
  also have "\<dots> = 2 powi (53 + j)" by (simp add: power_int_add)
  finally have "2 powi ilog2 ?x < (2::rat) powi (53 + j)"
    using ilog2_bounds [OF x] by linarith
  have "ilog2 ?x < 53 + j"
  proof (rule ccontr)
    assume "\<not> ilog2 ?x < 53 + j"
    then have "(2::rat) powi (53 + j) \<le> 2 powi ilog2 ?x"
      by (intro power_int_increasing) simp_all
    with \<open>2 powi ilog2 ?x < (2::rat) powi (53 + j)\<close> show False by simp
  qed
  define d where "d = nat (j - ilog2 ?x + 52)"
  have d: "int d = j - ilog2 ?x + 52"
    using \<open>ilog2 ?x < 53 + j\<close> by (simp add: d_def)
  have "?x / ulp ?x = of_int k * 2 powi (j - (ilog2 ?x - 52))"
    using x by (simp add: power_int_diff)
  also have "j - (ilog2 ?x - 52) = int d" using d by simp
  also have "of_int k * (2::rat) powi int d = of_int (k * 2 ^ d)" by simp
  finally have m: "?x / ulp ?x = of_int (k * 2 ^ d)" .
  have "fl53 ?x = of_int (k * 2 ^ d) * ulp ?x"
    using x by (simp only: fl53_pos m rne_of_int)
  also have "\<dots> = ?x / ulp ?x * ulp ?x" by (simp only: m)
  also have "\<dots> = ?x" by simp
  finally show ?thesis .
qed

lemma fl53_of_nat: "n < 2 ^ 53 \<Longrightarrow> fl53 (of_nat n) = of_nat n"
proof (cases "n = 0")
  case False
  assume "n < 2 ^ 53"
  with False have "0 < int n" "int n < 2 ^ 53" by simp_all
  from fl53_exact [OF this, of 0] show ?thesis by simp
qed simp

lemma fl53_le_bound:
  assumes "0 \<le> x" "x \<le> B"
  shows "fl53 x \<le> B + B / 2 ^ 53"
proof -
  have "fl53 x \<le> x + x / 2 ^ 53" by (rule fl53_upper [OF assms(1)])
  also have "\<dots> \<le> B + B / 2 ^ 53"
    using assms(2) by (intro add_mono divide_right_mono) simp_all
  finally show ?thesis .
qed

lemma fl53_1 [simp]: "fl53 1 = 1"
  using fl53_of_nat [of 1] by simp

lemma fl53_numeral: "numeral n < (2 ^ 53 :: nat) \<Longrightarrow> fl53 (numeral n) = numeral n"
  using fl53_of_nat [of "numeral n"] by simp

lemma jdiv_unit:
  assumes "i \<le> n"
  shows "0 \<le> jdiv (of_nat i) (of_nat n)" "jdiv (of_nat i) (of_nat n) \<le> 1"
proof -
  have q: "(0::rat) \<le> of_nat i / of_nat n" "(of_nat i :: rat) / of_nat n \<le> 1"
    using assms by (auto simp: divide_le_eq_1)
  from fl53_nonneg [OF q(1)] show "0 \<le> jdiv (of_nat i) (of_nat n)" by (simp add: jdiv_def)
  from fl53_mono [OF q] show "jdiv (of_nat i) (of_nat n) \<le> 1" by (simp add: jdiv_def)
qed

lemma entry_progress_range:
  assumes "i \<le> n"
  shows "0 \<le> entry_progress n i" "entry_progress n i \<le> 90"
proof -
  from jdiv_unit [OF assms]
  have p: "0 \<le> jdiv (of_nat i) (of_nat n) * 90" "jdiv (of_nat i) (of_nat n) * 90 \<le> 90"
    by simp_all
  from fl53_nonneg [OF p(1)] show "0 \<le> entry_progress n i" by (simp add: jmul_def)
  from fl53_mono [OF p] show "entry_progress n i \<le> 90"
    by (simp add: jmul_def fl53_numeral)
qed

lemma entry_progress_mono:
  assumes "i \<le> j"
  shows "entry_progress n i \<le> entry_progress n j"
proof -
  have "(0::rat) \<le> of_nat i / of_nat n" by simp
  moreover have "(of_nat i :: rat) / of_nat n \<le> of_nat j / of_nat n"
    using assms by (simp add: divide_right_mono)
  ultimately have q: "jdiv (of_nat i) (of_nat n) \<le> jdiv (of_nat j) (of_nat n)"
    unfolding jdiv_def by (rule fl53_mono)
  have "0 \<le> jdiv (of_nat i) (of_nat n)"
    unfolding jdiv_def by (rule fl53_nonneg) simp
  then have "0 \<le> jdiv (of_nat i) (of_nat n) * 90" by simp
  moreover have "jdiv (of_nat i) (of_nat n) * 90 \<le> jdiv (of_nat j) (of_nat n) * 90"
    using q by simp
  ultimately show ?thesis unfolding jmul_def by (rule fl53_mono)
qed

lemma sorted_entry_progress: "sorted (map (entry_progress n) [i..<m])"
proof -
  have "sorted_wrt (\<lambda>a b. entry_progress n a \<le> entry_progress n b) [i..<m]"
    by (rule sorted_wrt_mono_rel [OF _ sorted_wrt_upt]) (simp add: entry_progress_mono)
  then show ?thesis by (simp add: sorted_map)
qed

lemma sorted_reports:
  assumes "m \<le> n"
  shows "sorted (0 # map (entry_progress n) [0..<m] @ [100])"
proof -
  have "\<forall>x \<in> set (map (entry_progress n) [0..<m]). 0 \<le> x \<and> x \<le> 100"
  proof
    fix x assume "x \<in> set (map (entry_progress n) [0..<m])"
    then obtain i where "i < m" "x = entry_progress n i" by auto
    with assms entry_progress_range [of i n] show "0 \<le> x \<and> x \<le> 100" by simp
  qed
  then show ?thesis
    using sorted_entry_progress [of n 0 m] by (auto simp: sorted_append)
qed

lemma scale_1: "w < 2 ^ 53 \<Longrightarrow> jmul (of_nat w) 1 = of_nat w"
  by (simp add: jmul_def fl53_of_nat)

lemma jadd_of_nat:
  "a + b < 2 ^ 53 \<Longrightarrow> jadd (of_nat a) (of_nat b) = of_nat (a + b)"
  using fl53_of_nat [of "a + b"] by (simp add: jadd_def)

section \<open>The watermark font size in exact arithmetic\<close>

lemma fl53_8_5: "fl53 (8 / 5) = 3602879701896397 / 2251799813685248"
  by code_simp

lemma fontSize_upper:
  fixes a q c X D :: rat and N :: nat
  assumes a: "0 \<le> a" and D: "0 < D" and aX: "a * (8 / 5) = X / D"
    and q: "0 \<le> q" "q \<le> a + a / 2 ^ 53"
    and c: "c = 3602879701896397 / 2251799813685248"
    and X: "0 \<le> X" "X + 1 \<le> D * (of_nat N + 1)" "X * 24 < 2 ^ 53"
  shows "fl53 (q * c) < of_nat N + 1"
proof -
  define u :: rat where "u = 1 / 2 ^ 53"
  have c0: "0 \<le> c" by (simp add: c)
  have "q * c \<le> (a + a * u) * c"
    using q(2) c0 by (intro mult_right_mono) (simp_all add: u_def)
  with fl53_le_bound [of "q * c" "(a + a * u) * c"] q(1) c0
  have "fl53 (q * c) \<le> (a + a * u) * c + (a + a * u) * c * u"
    by (simp add: u_def)
  also have "\<dots> = a * ((1 + u) * c * (1 + u))" by (simp add: algebra_simps)
  also have "\<dots> \<le> a * (8 / 5 * (1 + 3 * u))"
  proof (rule mult_left_mono [OF _ a])
    show "(1 + u) * c * (1 + u) \<le> 8 / 5 * (1 + 3 * u)"
      unfolding u_def c by simp
  qed
  also have "\<dots> = a * (8 / 5) * (1 + 3 * u)" by simp
  also have "\<dots> = X / D * (1 + 3 * u)" by (simp only: aX)
  also have "\<dots> = X * (1 + 3 * u) / D" by simp
  also have "\<dots> < of_nat N + 1"
  proof -
    have "X * (3 * u) < 1"
      using X(3) by (simp add: u_def)
    then have "X * (1 + 3 * u) < X + 1" by (simp add: algebra_simps)
    also note X(2)
    finally show ?thesis using D by (simp add: pos_divide_less_eq mult.commute)
  qed
  finally show ?thesis .
qed

lemma fontSize_lower_inexact:
  fixes a q c X D :: rat and N :: nat
  assumes a: "0 \<le> a" and D: "0 < D" and aX: "a * (8 / 5) = X / D"
    and q: "a - a / 2 ^ 53 \<le> q"
    and c: "c = 3602879701896397 / 2251799813685248"
    and X: "0 \<le> X" "D * of_nat N + 1 \<le> X" "X * 16 \<le> 2 ^ 53"
  shows "of_nat N \<le> fl53 (q * c)"
proof -
  define u :: rat where "u = 1 / 2 ^ 53"
  have u: "0 \<le> 1 - u" by (simp add: u_def)
  have au: "0 \<le> a * (1 - u)" using a u by simp
  have q': "a * (1 - u) \<le> q" using q by (simp add: u_def algebra_simps)
  with au have q0: "0 \<le> q" by linarith
  have c85: "8 / 5 \<le> c" by (simp add: c)
  have "a * (1 - u) * (8 / 5) \<le> q * c"
    using q' c85 au by (intro mult_mono) simp_all
  moreover have "0 \<le> a * (1 - u) * (8 / 5)" using au by simp
  ultimately have qc: "a * (1 - u) * (8 / 5) \<le> q * c" "0 \<le> q * c" by linarith+
  have "X * (2 * u) \<le> 1" using X(3) by (simp add: u_def)
  then have "D * of_nat N \<le> X * (1 - 2 * u)"
    using X(2) by (simp add: algebra_simps)
  then have "of_nat N \<le> X * (1 - 2 * u) / D"
    using D by (simp add: pos_le_divide_eq mult.commute)
  also have "\<dots> = X / D * (1 - 2 * u)" by simp
  also have "\<dots> = a * (8 / 5) * (1 - 2 * u)" by (simp only: aX)
  also have "\<dots> \<le> a * (8 / 5) * ((1 - u) * (1 - u))"
  proof (rule mult_left_mono)
    show "1 - 2 * u \<le> (1 - u) * (1 - u)" by (simp add: u_def)
    show "0 \<le> a * (8 / 5)" using a by simp
  qed
  also have "\<dots> = a * (1 - u) * (8 / 5) * (1 - u)" by simp
  also have "\<dots> \<le> q * c * (1 - u)"
    using qc(1) u by (intro mult_right_mono)
  also have "\<dots> = q * c - q * c / 2 ^ 53" by (simp add: u_def algebra_simps)
  also have "\<dots> \<le> fl53 (q * c)" by (rule fl53_lower [OF qc(2)])
  finally show ?thesis .
qed

lemma fontSize_lower_exact:
  fixes c :: rat and N :: nat
  assumes c: "c = 3602879701896397 / 2251799813685248"
    and N: "N < 2 ^ 50"
  shows "of_nat N \<le> fl53 (fl53 (of_nat (5 * N) / 8) * c)"
proof (cases "N = 0")
  case True
  then show ?thesis by simp
next
  case False
  have "0 < int (5 * N)" "int (5 * N) < 2 ^ 53" using False N by simp_all
  from fl53_exact [OF this, of "- 3"]
  have q: "fl53 (of_nat (5 * N) / 8) = of_nat (5 * N) / 8"
    by (simp add: power_int_minus field_simps)
  have "(of_nat N :: rat) = of_nat (5 * N) / 8 * (8 / 5)" by simp
  also have "\<dots> \<le> of_nat (5 * N) / 8 * c"
    by (intro mult_left_mono) (simp_all add: c)
  finally have le: "(of_nat N :: rat) \<le> of_nat (5 * N) / 8 * c" .
  have "fl53 (of_nat N) \<le> fl53 (of_nat (5 * N) / 8 * c)"
    by (rule fl53_mono [OF _ le]) simp
  moreover have "fl53 (of_nat N) = of_nat N"
    using N by (intro fl53_of_nat) (simp add: less_trans [of N "2 ^ 50"])
  ultimately show ?thesis by (simp only: q)
qed

lemma fontSize_exact:
  assumes T: "watermarkText \<noteq> []" and w: "w < 2 ^ 32"
  shows "fontSize w watermarkText = Some (int ((8 * w) div (5 * length watermarkText)))"
proof -
  define L where "L = length watermarkText"
  define N where "N = (8 * w) div (5 * L)"
  define a :: rat where "a = of_nat w / of_nat L"
  define c :: rat where "c = fl53 (16 / 10)"
  let ?F = "fl53 (fl53 a * c)"
  have L: "0 < L" using T by (simp add: L_def)
  have c: "c = 3602879701896397 / 2251799813685248" by (simp add: c_def fl53_8_5)
  have a: "0 \<le> a" by (simp add: a_def)
  have D: "(0::rat) < of_nat (5 * L)" using L by simp
  have aX: "a * (8 / 5) = of_nat (8 * w) / of_nat (5 * L)" using L by (simp add: a_def)
  have X0: "(0::rat) \<le> of_nat (8 * w)" by simp
  have w24: "8 * w * 24 < (2::nat) ^ 53" using w by simp
  then have "(of_nat (8 * w * 24) :: rat) < of_nat (2 ^ 53)" by (simp only: of_nat_less_iff)
  then have X24: "(of_nat (8 * w) :: rat) * 24 < 2 ^ 53" by simp
  then have X16: "(of_nat (8 * w) :: rat) * 16 \<le> 2 ^ 53" by simp
  have dm: "8 * w = 5 * L * N + (8 * w) mod (5 * L)" by (simp add: N_def)
  have "(8 * w) mod (5 * L) < 5 * L" using L by simp
  with dm have "8 * w + 1 \<le> 5 * L * (N + 1)" by simp
  then have "(of_nat (8 * w + 1) :: rat) \<le> of_nat (5 * L * (N + 1))"
    by (simp only: of_nat_le_iff)
  then have Xup: "(of_nat (8 * w) :: rat) + 1 \<le> of_nat (5 * L) * (of_nat N + 1)"
    by (simp add: algebra_simps)
  have up: "?F < of_nat N + 1"
    by (rule fontSize_upper [OF a D aX fl53_nonneg [OF a] fl53_upper [OF a] c X0 Xup X24])
  have lo: "of_nat N \<le> ?F"
  proof (cases "(8 * w) mod (5 * L) = 0")
    case True
    with dm have e: "8 * w = 5 * L * N" by simp
    then have "(of_nat (8 * w) :: rat) = of_nat (5 * L * N)" by (simp only:)
    then have a8: "a = of_nat (5 * N) / 8" using L by (simp add: a_def field_simps)
    have "N < 2 ^ 50"
    proof -
      have "N \<le> 8 * w" unfolding N_def by (rule div_le_dividend)
      also have "\<dots> < 2 ^ 50" using w by simp
      finally show ?thesis .
    qed
    from fontSize_lower_exact [OF c this] show ?thesis by (simp only: a8)
  next
    case False
    with dm have "5 * L * N + 1 \<le> 8 * w" by simp
    then have "(of_nat (5 * L * N + 1) :: rat) \<le> of_nat (8 * w)" by (simp only: of_nat_le_iff)
    then have Xlo: "(of_nat (5 * L) :: rat) * of_nat N + 1 \<le> of_nat (8 * w)"
      by (simp add: algebra_simps)
    show ?thesis
      by (rule fontSize_lower_inexact [OF a D aX fl53_lower [OF a] c X0 Xlo X16])
  qed
  have "\<lfloor>?F\<rfloor> = int N"
    by (rule floor_unique) (use lo up in simp_all)
  then show ?thesis
    using T by (simp add: fontSize_def Math_floor_def jmul_def jdiv_def a_def c_def L_def N_def)
qed

section \<open>The size of the resized canvas\<close>

lemma side_product_bound:
  fixes M r :: rat and d :: nat
  assumes "0 \<le> M" and "0 < d \<Longrightarrow> r \<le> fl53 (M / of_nat d)"
  shows "of_nat d * r \<le> M + M / 2 ^ 53"
proof (cases "d = 0")
  case True
  with assms(1) show ?thesis by simp
next
  case False
  then have d: "(0::rat) < of_nat d" by simp
  have "r \<le> fl53 (M / of_nat d)" using False assms(2) by simp
  also have "\<dots> \<le> M / of_nat d + M / of_nat d / 2 ^ 53"
    using assms(1) by (intro fl53_upper) simp
  finally have "of_nat d * r \<le> of_nat d * (M / of_nat d + M / of_nat d / 2 ^ 53)"
    using d by (intro mult_left_mono) simp_all
  also have "\<dots> = M + M / 2 ^ 53" using d by (simp add: algebra_simps)
  finally show ?thesis .
qed

lemma to_unsigned_long_small:
  assumes "0 \<le> x" "x < 2 ^ 32"
  shows "to_unsigned_long x = nat \<lfloor>x\<rfloor>"
proof -
  have "0 \<le> \<lfloor>x\<rfloor>" using assms(1) by simp
  moreover have "\<lfloor>x\<rfloor> < 2 ^ 32" using assms(2) by (simp add: floor_less_iff)
  ultimately show ?thesis using assms(1) by (simp add: to_unsigned_long_def)
qed

lemma to_unsigned_long_of_nat: "n < 2 ^ 32 \<Longrightarrow> to_unsigned_long (of_nat n) = n"
  by (simp add: to_unsigned_long_def)

text \<open>One side of the scaled canvas.\<close>

lemma scaled_side:
  fixes M r :: rat and d :: nat
  assumes M: "0 \<le> M" "M + M / 2 ^ 53 + (M + M / 2 ^ 53) / 2 ^ 53 < of_nat B + 1" "B < 2 ^ 31"
    and r: "0 \<le> r" "0 < d \<Longrightarrow> r \<le> fl53 (M / of_nat d)"
  shows "to_unsigned_long (jmul (of_nat d) r) \<le> B"
    and "to_unsigned_long (jmul (of_nat d) r) = nat \<lfloor>fl53 (of_nat d * r)\<rfloor>"
    and "0 \<le> fl53 (of_nat d * r)"
proof -
  have p: "0 \<le> of_nat d * r" using r(1) by simp
  from side_product_bound [OF M(1) r(2)] have "of_nat d * r \<le> M + M / 2 ^ 53" by simp
  from fl53_le_bound [OF p this] M(2)
  have lt: "fl53 (of_nat d * r) < of_nat B + 1" by linarith
  show nn: "0 \<le> fl53 (of_nat d * r)" by (rule fl53_nonneg [OF p])
  have "B + 1 \<le> 2 ^ 32" using M(3) by simp
  then have "(of_nat (B + 1) :: rat) \<le> of_nat (2 ^ 32)" by (simp only: of_nat_le_iff)
  then have "(of_nat B :: rat) + 1 \<le> 2 ^ 32" by simp
  with lt have "fl53 (of_nat d * r) < 2 ^ 32" by linarith
  from to_unsigned_long_small [OF nn this]
  show eq: "to_unsigned_long (jmul (of_nat d) r) = nat \<lfloor>fl53 (of_nat d * r)\<rfloor>"
    by (simp add: jmul_def)
  have "fl53 (of_nat d * r) < of_int (int B + 1)" using lt by simp
  then have "\<lfloor>fl53 (of_nat d * r)\<rfloor> < int B + 1" by (simp only: floor_less_iff)
  then show "to_unsigned_long (jmul (of_nat d) r) \<le> B"
    unfolding eq by simp
qed

lemma aspect_core:
  fixes w h r W H :: rat
  assumes w: "0 \<le> w" and h: "0 \<le> h"
    and W: "\<bar>W - w * r\<bar> \<le> w * r / 2 ^ 53"
    and H: "\<bar>H - h * r\<bar> \<le> h * r / 2 ^ 53"
    and small: "w * r * h * 2 < 2 ^ 53"
  shows "of_int \<lfloor>W\<rfloor> * h - of_int \<lfloor>H\<rfloor> * w < w + 1"
proof -
  define u :: rat where "u = 1 / 2 ^ 53"
  define p where "p = w * r * h"
  have pu: "p * u * 2 < 1" using small by (simp add: p_def u_def)
  from abs_diff_bounds [OF W] have W': "W \<le> w * r + w * r * u" by (simp add: u_def)
  from abs_diff_bounds [OF H] have H': "h * r - h * r * u \<le> H" by (simp add: u_def)
  have "of_int \<lfloor>W\<rfloor> \<le> W" by simp
  with W' have "of_int \<lfloor>W\<rfloor> \<le> w * r + w * r * u" by linarith
  then have "of_int \<lfloor>W\<rfloor> * h \<le> (w * r + w * r * u) * h"
    using h by (rule mult_right_mono)
  also have "\<dots> = p + p * u" by (simp add: p_def algebra_simps)
  finally have 1: "of_int \<lfloor>W\<rfloor> * h \<le> p + p * u" .
  have "H < of_int \<lfloor>H\<rfloor> + 1" by linarith
  with H' have "h * r - h * r * u - 1 \<le> of_int \<lfloor>H\<rfloor>" by linarith
  then have "(h * r - h * r * u - 1) * w \<le> of_int \<lfloor>H\<rfloor> * w"
    using w by (rule mult_right_mono)
  moreover have "(h * r - h * r * u - 1) * w = p - p * u - w"
    by (simp add: p_def algebra_simps)
  ultimately have 2: "p - p * u - w \<le> of_int \<lfloor>H\<rfloor> * w" by simp
  from 1 2 pu show ?thesis by linarith
qed

lemma resizeImage_dims_unchanged:
  "w \<le> 1600 \<Longrightarrow> h \<le> 1200 \<Longrightarrow> resizeImage_dims w h 1600 1200 = (of_nat w, of_nat h)"
proof -
  assume "w \<le> 1600" "h \<le> 1200"
  then have "(of_nat w :: rat) \<le> of_nat 1600" "(of_nat h :: rat) \<le> of_nat 1200"
    by (simp_all only: of_nat_le_iff)
  then show ?thesis by (simp add: resizeImage_dims_def not_less [symmetric])
qed

lemma resizeImage_dims_scaled:
  assumes "1600 < w \<or> 1200 < h"
  shows "\<exists>r. resizeImage_dims w h 1600 1200 = (jmul (of_nat w) r, jmul (of_nat h) r) \<and>
             0 \<le> r \<and> (0 < w \<longrightarrow> r \<le> fl53 (1600 / of_nat w)) \<and>
             (0 < h \<longrightarrow> r \<le> fl53 (1200 / of_nat h))"
proof -
  define r where "r = (if w = 0 then jdiv 1200 (of_nat h)
                        else if h = 0 then jdiv 1600 (of_nat w)
                        else min (jdiv 1600 (of_nat w)) (jdiv 1200 (of_nat h)))"
  from assms have "(of_nat 1600 :: rat) < of_nat w \<or> (of_nat 1200 :: rat) < of_nat h"
    by (simp only: of_nat_less_iff)
  then have "resizeImage_dims w h 1600 1200 = (jmul (of_nat w) r, jmul (of_nat h) r)"
    by (simp add: resizeImage_dims_def r_def Let_def)
  moreover have n1: "0 \<le> jdiv 1600 (of_nat w)" and n2: "0 \<le> jdiv 1200 (of_nat h)"
    unfolding jdiv_def by (rule fl53_nonneg, simp)+
  then have "0 \<le> r" by (simp add: r_def)
  moreover have "0 < w \<longrightarrow> r \<le> fl53 (1600 / of_nat w)"
    by (simp add: r_def jdiv_def)
  moreover have "0 < h \<longrightarrow> r \<le> fl53 (1200 / of_nat h)"
    using assms by (auto simp: r_def jdiv_def)
  ultimately show ?thesis by blast
qed

lemma resizeImage_size_spec:
  "(w \<le> 1600 \<and> h \<le> 1200 \<longrightarrow> resizeImage_size w h 1600 1200 = (w, h)) \<and>
   fst (resizeImage_size w h 1600 1200) \<le> 1600 \<and>
   snd (resizeImage_size w h 1600 1200) \<le> 1200 \<and>
   (w < 2 ^ 32 \<and> h < 2 ^ 32 \<longrightarrow>
      \<bar>int (fst (resizeImage_size w h 1600 1200)) * int h -
       int (snd (resizeImage_size w h 1600 1200)) * int w\<bar> \<le> int (max w h))"
proof (cases "w \<le> 1600 \<and> h \<le> 1200")
  case True
  then have "resizeImage_size w h 1600 1200 = (w, h)"
    by (simp add: resizeImage_size_def resizeImage_dims_unchanged to_unsigned_long_of_nat)
  with True show ?thesis by (simp add: mult.commute)
next
  case False
  then have "1600 < w \<or> 1200 < h" by auto
  from resizeImage_dims_scaled [OF this] obtain r where
    dims: "resizeImage_dims w h 1600 1200 = (jmul (of_nat w) r, jmul (of_nat h) r)" and
    r: "0 \<le> r" "0 < w \<Longrightarrow> r \<le> fl53 (1600 / of_nat w)" "0 < h \<Longrightarrow> r \<le> fl53 (1200 / of_nat h)"
    by blast
  let ?W = "fl53 (of_nat w * r)" and ?H = "fl53 (of_nat h * r)"
  have sz: "resizeImage_size w h 1600 1200 =
              (to_unsigned_long (jmul (of_nat w) r), to_unsigned_long (jmul (of_nat h) r))"
    by (simp add: resizeImage_size_def dims)
  have bw: "(1600::rat) + 1600 / 2 ^ 53 + (1600 + 1600 / 2 ^ 53) / 2 ^ 53 < of_nat 1600 + 1"
    by simp
  have bh: "(1200::rat) + 1200 / 2 ^ 53 + (1200 + 1200 / 2 ^ 53) / 2 ^ 53 < of_nat 1200 + 1"
    by simp
  note sw = scaled_side [where M = 1600 and B = 1600 and d = w and r = r, OF _ bw _ r(1) r(2)]
  note sh = scaled_side [where M = 1200 and B = 1200 and d = h and r = r, OF _ bh _ r(1) r(3)]
  have cw: "to_unsigned_long (jmul (of_nat w) r) \<le> 1600"
    "to_unsigned_long (jmul (of_nat w) r) = nat \<lfloor>?W\<rfloor>" "0 \<le> ?W"
    using sw by simp_all
  have ch: "to_unsigned_long (jmul (of_nat h) r) \<le> 1200"
    "to_unsigned_long (jmul (of_nat h) r) = nat \<lfloor>?H\<rfloor>" "0 \<le> ?H"
    using sh by simp_all
  have aspect: "\<bar>int (nat \<lfloor>?W\<rfloor>) * int h - int (nat \<lfloor>?H\<rfloor>) * int w\<bar> \<le> int (max w h)"
    if lt: "w < 2 ^ 32" "h < 2 ^ 32"
  proof -
    have pw: "of_nat w * r \<le> 1600 + 1600 / 2 ^ 53"
      by (rule side_product_bound) (use r in simp_all)
    have ph: "of_nat h * r \<le> 1200 + 1200 / 2 ^ 53"
      by (rule side_product_bound) (use r in simp_all)
    have w0: "(0::rat) \<le> of_nat w" and h0: "(0::rat) \<le> of_nat h" by simp_all
    have wr0: "0 \<le> of_nat w * r" and hr0: "0 \<le> of_nat h * r" using r(1) by simp_all
    have h32: "(of_nat h :: rat) \<le> 2 ^ 32" and w32: "(of_nat w :: rat) \<le> 2 ^ 32"
    proof -
      from lt have "(of_nat h :: rat) \<le> of_nat (2 ^ 32)" "(of_nat w :: rat) \<le> of_nat (2 ^ 32)"
        by (simp_all only: of_nat_le_iff)
      then show "(of_nat h :: rat) \<le> 2 ^ 32" "(of_nat w :: rat) \<le> 2 ^ 32" by simp_all
    qed
    have K: "((1600::rat) + 1600 / 2 ^ 53) * 2 ^ 32 * 2 < 2 ^ 53" by simp
    have "of_nat w * r * of_nat h \<le> (1600 + 1600 / 2 ^ 53) * 2 ^ 32"
      using pw h32 wr0 h0 by (intro mult_mono) simp_all
    with K have s1: "of_nat w * r * of_nat h * 2 < 2 ^ 53" by linarith
    have "of_nat h * r * of_nat w = of_nat w * r * of_nat h" by simp
    with s1 have s2: "of_nat h * r * of_nat w * 2 < 2 ^ 53" by (simp only:)
    have iW: "int (nat \<lfloor>?W\<rfloor>) = \<lfloor>?W\<rfloor>" using cw(3) by simp
    have iH: "int (nat \<lfloor>?H\<rfloor>) = \<lfloor>?H\<rfloor>" using ch(3) by simp
    from aspect_core [OF w0 h0 fl53_rel [OF wr0] fl53_rel [OF hr0] s1]
    have "(of_int (\<lfloor>?W\<rfloor> * int h - \<lfloor>?H\<rfloor> * int w) :: rat) < of_int (int w + 1)" by simp
    then have a1: "\<lfloor>?W\<rfloor> * int h - \<lfloor>?H\<rfloor> * int w < int w + 1" by (simp only: of_int_less_iff)
    from aspect_core [OF h0 w0 fl53_rel [OF hr0] fl53_rel [OF wr0] s2]
    have "(of_int (\<lfloor>?H\<rfloor> * int w - \<lfloor>?W\<rfloor> * int h) :: rat) < of_int (int h + 1)" by simp
    then have a2: "\<lfloor>?H\<rfloor> * int w - \<lfloor>?W\<rfloor> * int h < int h + 1" by (simp only: of_int_less_iff)
    from a1 a2 show ?thesis unfolding iW iH by (simp add: abs_le_iff max_def) 
  qed
  from False cw ch aspect show ?thesis by (auto simp: sz)
qed

section \<open>The last dot of a file name\<close>

lemma lastIndexFrom_none:
  "(\<And>j. j < k \<Longrightarrow> s ! j \<noteq> c) \<Longrightarrow> lastIndexFrom s c k = - 1"
  by (induction k) simp_all

lemma lastIndexFrom_found:
  "j < k \<Longrightarrow> s ! j = c \<Longrightarrow> (\<And>i. j < i \<Longrightarrow> i < k \<Longrightarrow> s ! i \<noteq> c)
     \<Longrightarrow> lastIndexFrom s c k = int j"
proof (induction k)
  case 0
  then show ?case by simp
next
  case (Suc k)
  show ?case
  proof (cases "j = k")
    case True
    with Suc.prems show ?thesis by simp
  next
    case False
    with Suc.prems have "j < k" by simp
    moreover from Suc.prems \<open>j < k\<close> have "s ! k \<noteq> c" by simp
    ultimately show ?thesis using Suc by simp
  qed
qed

lemma lastIndexOf_absent: "c \<notin> set s \<Longrightarrow> lastIndexOf s c = - 1"
  unfolding lastIndexOf_def by (rule lastIndexFrom_none) (metis nth_mem)

lemma lastIndexOf_last:
  assumes "c \<notin> set b"
  shows "lastIndexOf (a @ c # b) c = int (length a)"
  unfolding lastIndexOf_def
proof (rule lastIndexFrom_found)
  show "length a < length (a @ c # b)" by simp
  show "(a @ c # b) ! length a = c" by simp
  fix i assume "length a < i" "i < length (a @ c # b)"
  then have "(a @ c # b) ! i = b ! (i - length a - 1)" and "i - length a - 1 < length b"
    by (auto simp: nth_append nth_Cons')
  with assms show "(a @ c # b) ! i \<noteq> c" by (metis nth_mem)
qed

lemma substring_prefix: "substring (a @ b) 0 (int (length a)) = a"
  by (simp add: substring_def)

lemma removeFileExtension_no_dot:
  "DOT \<notin> set filename \<Longrightarrow> removeFileExtension filename = filename"
  by (simp add: removeFileExtension_def lastIndexOf_absent)

lemma removeFileExtension_last_dot:
  "DOT \<notin> set ext \<Longrightarrow> removeFileExtension (stem @ DOT # ext) = stem"
  by (simp add: removeFileExtension_def lastIndexOf_last substring_prefix)


section \<open>The loop over the files\<close>

declare process_files.simps [simp del]

lemma setProgress_fields [simp]:
  "reports (setProgress v st) = reports st @ [v]"
  "document (setProgress v st) = document st"
  "downloads (setProgress v st) = downloads st"
  "console (setProgress v st) = console st"
  "settled (setProgress v st) = settled st"
  "files (ui (setProgress v st)) = files (ui st)"
  "isGenerating (ui (setProgress v st)) = isGenerating (ui st)"
  "progress (ui (setProgress v st)) = v"
  by (simp_all add: setProgress_def)

lemma setIsGenerating_fields [simp]:
  "reports (setIsGenerating b st) = reports st"
  "document (setIsGenerating b st) = document st"
  "downloads (setIsGenerating b st) = downloads st"
  "console (setIsGenerating b st) = console st"
  "settled (setIsGenerating b st) = settled st"
  "files (ui (setIsGenerating b st)) = files (ui st)"
  "isGenerating (ui (setIsGenerating b st)) = b"
  "progress (ui (setIsGenerating b st)) = progress (ui st)"
  by (simp_all add: setIsGenerating_def)

lemma deliver_fields [simp]:
  "reports (deliver evs st) = reports st"
  "document (deliver evs st) = document st"
  "downloads (deliver evs st) = downloads st"
  "console (deliver evs st) = console st"
  "settled (deliver evs st) = settled st"
  by (simp_all add: deliver_def)

lemma start_download_fields [simp]:
  "reports (start_download b st) = reports st"
  "document (start_download b st) = document st"
  "downloads (start_download b st) = downloads st @
     [\<lparr>dl_download = utf16 ''images.pdf'', dl_type = ''application/pdf'', dl_bytes = b\<rparr>]"
  "console (start_download b st) = console st"
  "settled (start_download b st) = settled st"
  "ui (start_download b st) = ui st"
  by (simp_all add: start_download_def)

lemma process_files_done:
  "length fs \<le> i \<Longrightarrow> process_files env sched fs i pdfDoc st = (Resolved pdfDoc, st)"
  by (subst process_files.simps) simp

lemma process_files_step:
  "i < length fs \<Longrightarrow> process_files env sched fs i pdfDoc st =
     (let st1 = deliver (sched i) (setProgress (entry_progress (length fs) i) st)
      in case process_file env (fs ! i) of
           Resolved page \<Rightarrow> process_files env sched fs (Suc i) (pdfDoc @ [page]) st1
         | Rejected e \<Rightarrow> (Rejected e, st1)
         | Pending \<Rightarrow> (Pending, st1))"
  by (subst process_files.simps) simp

lemma process_files_frame:
  "document (snd (process_files env sched fs i pdfDoc st)) = document st \<and>
   downloads (snd (process_files env sched fs i pdfDoc st)) = downloads st \<and>
   console (snd (process_files env sched fs i pdfDoc st)) = console st \<and>
   settled (snd (process_files env sched fs i pdfDoc st)) = settled st"
proof (induction env sched fs i pdfDoc st rule: process_files.induct)
  case (1 env sched fs i pdfDoc st)
  show ?case
  proof (cases "i < length fs")
    case True
    then show ?thesis
      using 1 by (simp add: process_files_step Let_def split: promise.splits)
  next
    case False
    then show ?thesis by (simp add: process_files_done)
  qed
qed

lemma process_files_pages:
  "process_files env sched fs i pdfDoc st = (Resolved pdfDoc', st') \<Longrightarrow>
   \<exists>ps. pdfDoc' = pdfDoc @ ps \<and> length ps = length fs - i \<and>
        (\<forall>j<length ps. process_file env (fs ! (i + j)) = Resolved (ps ! j))"
proof (induction env sched fs i pdfDoc st arbitrary: pdfDoc' st' rule: process_files.induct)
  case (1 env sched fs i pdfDoc st)
  show ?case
  proof (cases "i < length fs")
    case False
    with "1.prems" show ?thesis by (simp add: process_files_done)
  next
    case True
    from True "1.prems" obtain page where
      page: "process_file env (fs ! i) = Resolved page" and
      rec: "process_files env sched fs (Suc i) (pdfDoc @ [page])
              (deliver (sched i) (setProgress (entry_progress (length fs) i) st))
            = (Resolved pdfDoc', st')"
      by (auto simp: process_files_step Let_def split: promise.splits)
    from "1.IH" [OF True refl refl page rec]
    obtain ps where ps: "pdfDoc' = (pdfDoc @ [page]) @ ps" "length ps = length fs - Suc i"
      "\<forall>j<length ps. process_file env (fs ! (Suc i + j)) = Resolved (ps ! j)"
      by blast
    have "\<forall>j<length (page # ps). process_file env (fs ! (i + j)) = Resolved ((page # ps) ! j)"
    proof (intro allI impI)
      fix j assume "j < length (page # ps)"
      then show "process_file env (fs ! (i + j)) = Resolved ((page # ps) ! j)"
        using page ps(3) by (cases j) auto
    qed
    moreover have "pdfDoc' = pdfDoc @ page # ps" using ps(1) by simp
    moreover have "length (page # ps) = length fs - i" using ps(2) True by simp
    ultimately show ?thesis by blast
  qed
qed

lemma process_files_reports:
  "\<exists>m. m \<le> length fs \<and>
     reports (snd (process_files env sched fs i pdfDoc st)) =
       reports st @ map (entry_progress (length fs)) [i..<m] \<and>
     ((\<exists>d. fst (process_files env sched fs i pdfDoc st) = Resolved d) \<longrightarrow> m = length fs)"
proof (induction env sched fs i pdfDoc st rule: process_files.induct)
  case (1 env sched fs i pdfDoc st)
  show ?case
  proof (cases "i < length fs")
    case False
    then show ?thesis
      by (intro exI [of _ "length fs"]) (simp add: process_files_done)
  next
    case True
    let ?st1 = "deliver (sched i) (setProgress (entry_progress (length fs) i) st)"
    show ?thesis
    proof (cases "process_file env (fs ! i)")
      case (Resolved page)
      from "1.IH" [OF True refl refl Resolved]
      obtain m where m: "m \<le> length fs"
        "reports (snd (process_files env sched fs (Suc i) (pdfDoc @ [page]) ?st1)) =
           reports ?st1 @ map (entry_progress (length fs)) [Suc i..<m]"
        "(\<exists>d. fst (process_files env sched fs (Suc i) (pdfDoc @ [page]) ?st1) = Resolved d)
           \<longrightarrow> m = length fs"
        by blast
      show ?thesis
      proof (cases "Suc i \<le> m")
        case le: True
        then have "[i..<m] = i # [Suc i..<m]" by (simp add: upt_conv_Cons)
        with m True Resolved show ?thesis
          by (intro exI [of _ m]) (simp add: process_files_step)
      next
        case nle: False
        then have "[Suc i..<m] = []" by simp
        moreover from nle m(3) True
        have "\<not> (\<exists>d. fst (process_files env sched fs (Suc i) (pdfDoc @ [page]) ?st1) = Resolved d)"
          by auto
        ultimately show ?thesis
          using m True Resolved
          by (intro exI [of _ "Suc i"]) (simp add: process_files_step)
      qed
    next
      case (Rejected e)
      with True show ?thesis
        by (intro exI [of _ "Suc i"]) (simp add: process_files_step)
    next
      case Pending
      with True show ?thesis
        by (intro exI [of _ "Suc i"]) (simp add: process_files_step)
    qed
  qed
qed

lemma process_files_stops:
  "i \<le> k \<Longrightarrow> k < length fs \<Longrightarrow> (\<And>p. process_file env (fs ! k) \<noteq> Resolved p) \<Longrightarrow>
   (\<forall>d. fst (process_files env sched fs i pdfDoc st) \<noteq> Resolved d) \<and>
   length (reports (snd (process_files env sched fs i pdfDoc st)))
     \<le> length (reports st) + (Suc k - i)"
proof (induction env sched fs i pdfDoc st rule: process_files.induct)
  case (1 env sched fs i pdfDoc st)
  from "1.prems" have lt: "i < length fs" by simp
  show ?case
  proof (cases "process_file env (fs ! i)")
    case (Resolved page)
    with "1.prems" have "i \<noteq> k" by auto
    with "1.prems" have "Suc i \<le> k" by simp
    from "1.IH" [OF lt refl refl Resolved this "1.prems"(2,3)] lt Resolved \<open>Suc i \<le> k\<close>
    show ?thesis
      by (simp add: process_files_step) arith
  next
    case (Rejected e)
    with lt "1.prems" show ?thesis by (simp add: process_files_step)
  next
    case Pending
    with lt "1.prems" show ?thesis by (simp add: process_files_step)
  qed
qed

lemma process_files_all_resolved:
  "(\<And>j. i \<le> j \<Longrightarrow> j < length fs \<Longrightarrow> \<exists>p. process_file env (fs ! j) = Resolved p) \<Longrightarrow>
   \<exists>d. fst (process_files env sched fs i pdfDoc st) = Resolved d"
proof (induction env sched fs i pdfDoc st rule: process_files.induct)
  case (1 env sched fs i pdfDoc st)
  show ?case
  proof (cases "i < length fs")
    case False
    then show ?thesis by (simp add: process_files_done)
  next
    case True
    with "1.prems" [of i] obtain page where page: "process_file env (fs ! i) = Resolved page"
      by auto
    have "\<exists>d. fst (process_files env sched fs (Suc i) (pdfDoc @ [page])
             (deliver (sched i) (setProgress (entry_progress (length fs) i) st))) = Resolved d"
      by (rule "1.IH" [OF True refl refl page]) (use "1.prems" in auto)
    with True page show ?thesis by (simp add: process_files_step)
  qed
qed

lemma process_files_independent:
  "fst (process_files env sched fs i pdfDoc st) = fst (process_files env sched' fs i pdfDoc st')
   \<and> (reports st = reports st' \<longrightarrow>
        reports (snd (process_files env sched fs i pdfDoc st)) =
        reports (snd (process_files env sched' fs i pdfDoc st')))"
proof (induction env sched fs i pdfDoc st arbitrary: st' rule: process_files.induct)
  case (1 env sched fs i pdfDoc st)
  show ?case
  proof (cases "i < length fs")
    case False
    then show ?thesis by (simp add: process_files_done)
  next
    case True
    show ?thesis
    proof (cases "process_file env (fs ! i)")
      case (Resolved page)
      from "1.IH" [OF True refl refl Resolved,
          of "deliver (sched' i) (setProgress (entry_progress (length fs) i) st')"]
      show ?thesis using True Resolved
        by (simp add: process_files_step)
    next
      case (Rejected e)
      with True show ?thesis by (simp add: process_files_step)
    next
      case Pending
      with True show ?thesis by (simp add: process_files_step)
    qed
  qed
qed

section \<open>The run as a whole\<close>

lemma pbind_Resolved_iff [simp]:
  "pbind x f = Resolved b \<longleftrightarrow> (\<exists>a. x = Resolved a \<and> f a = Resolved b)"
  by (cases x) simp_all

lemma thrown_Resolved_iff [simp]: "thrown x = Resolved a \<longleftrightarrow> x = Inr a"
  by (cases x) simp_all

lemma assemble_page_Resolved:
  "assemble_page env imageBytes img file_name = Resolved page \<Longrightarrow>
   \<exists>titleWidth.
     widthOfTextAtSize env (removeFileExtension file_name) 28 = Inr titleWidth \<and>
     page = \<lparr>page_width = jadd (jmul (of_nat (fst img)) 1) 100,
             page_height = jadd (jmul (of_nat (snd img)) 1) 150,
             page_images = [\<lparr>di_bytes = imageBytes, di_x = 50, di_y = 100,
                             di_width = jmul (of_nat (fst img)) 1,
                             di_height = jmul (of_nat (snd img)) 1\<rparr>],
             page_texts = [\<lparr>dt_text = removeFileExtension file_name,
                            dt_x = jdiv (jsub (jadd (jmul (of_nat (fst img)) 1) 100)
                                     titleWidth) 2,
                            dt_y = 50, dt_size = 28, dt_color = (0, 0, 0)\<rparr>]\<rparr>"
  by (auto simp: assemble_page_def scale_def addPage_def drawImage_def drawText_def Let_def)

lemma process_file_title:
  "process_file env file = Resolved page \<Longrightarrow>
   map dt_text (page_texts page) = [removeFileExtension (name file)]"
  by (auto simp: process_file_def dest!: assemble_page_Resolved)

lemma handleGeneratePDF_empty:
  "files s = [] \<Longrightarrow> handleGeneratePDF env sched s =
     \<lparr>ui = s, reports = [], document = None, downloads = [], console = [], settled = True\<rparr>"
  by (simp add: handleGeneratePDF_def)

text \<open>The run in terms of the loop's result.\<close>

lemma handleGeneratePDF_success:
  assumes "document (handleGeneratePDF env sched s) = Some doc"
  shows "files s \<noteq> [] \<and>
         fst (process_files env sched (files s) 0 [] (start s)) = Resolved doc \<and>
         (\<exists>b. save env doc = Resolved b \<and>
              downloads (handleGeneratePDF env sched s) = [images_pdf b]) \<and>
         reports (handleGeneratePDF env sched s) =
           reports (snd (process_files env sched (files s) 0 [] (start s))) @ [100]"
proof -
  obtain r st1 where r: "process_files env sched (files s) 0 [] (start s) = (r, st1)"
    by (cases "process_files env sched (files s) 0 [] (start s)")
  from process_files_frame [of env sched "files s" 0 "[]" "start s"] r
  have fr: "document st1 = None" "downloads st1 = []" by simp_all
  from assms r fr show ?thesis
    by (auto simp: handleGeneratePDF_def try_block_def Let_def
        split: if_splits promise.splits prod.splits)
qed

lemma handleGeneratePDF_no_document:
  assumes "document (handleGeneratePDF env sched s) = None"
  shows "downloads (handleGeneratePDF env sched s) = []"
proof -
  obtain r st1 where r: "process_files env sched (files s) 0 [] (start s) = (r, st1)"
    by (cases "process_files env sched (files s) 0 [] (start s)")
  from process_files_frame [of env sched "files s" 0 "[]" "start s"] r
  have fr: "document st1 = None" "downloads st1 = []" by simp_all
  from assms r fr show ?thesis
    by (auto simp: handleGeneratePDF_def try_block_def Let_def
        split: if_splits promise.splits prod.splits)
qed

lemma handleGeneratePDF_failure:
  assumes "\<And>d. fst (process_files env sched (files s) 0 [] (start s)) \<noteq> Resolved d"
  shows "document (handleGeneratePDF env sched s) = None \<and>
         length (reports (handleGeneratePDF env sched s))
           \<le> length (reports (snd (process_files env sched (files s) 0 [] (start s))))"
proof -
  obtain r st1 where r: "process_files env sched (files s) 0 [] (start s) = (r, st1)"
    by (cases "process_files env sched (files s) 0 [] (start s)")
  from process_files_frame [of env sched "files s" 0 "[]" "start s"] r
  have fr: "document st1 = None" "downloads st1 = []" by simp_all
  from process_files_reports [of "files s" env sched 0 "[]" "start s"] r
  have "length (reports st1) \<ge> 1" by auto
  with assms r fr show ?thesis
    by (auto simp: handleGeneratePDF_def try_block_def Let_def
        split: if_splits promise.splits prod.splits)
qed

lemma handleGeneratePDF_pages:
  assumes "document (handleGeneratePDF env sched s) = Some doc"
  shows "length doc = length (files s) \<and>
         (\<forall>i<length (files s). process_file env (files s ! i) = Resolved (doc ! i))"
proof -
  from handleGeneratePDF_success [OF assms]
  obtain st1 where "process_files env sched (files s) 0 [] (start s) = (Resolved doc, st1)"
    by (metis prod.collapse)
  from process_files_pages [OF this] show ?thesis by auto
qed

lemma handleGeneratePDF_independent:
  assumes "files s = files s'"
  shows "document (handleGeneratePDF env sched s) = document (handleGeneratePDF env sched' s') \<and>
         downloads (handleGeneratePDF env sched s) = downloads (handleGeneratePDF env sched' s') \<and>
         reports (handleGeneratePDF env sched s) = reports (handleGeneratePDF env sched' s') \<and>
         console (handleGeneratePDF env sched s) = console (handleGeneratePDF env sched' s') \<and>
         settled (handleGeneratePDF env sched s) = settled (handleGeneratePDF env sched' s')"
proof -
  obtain r st1 where r: "process_files env sched (files s) 0 [] (start s) = (r, st1)"
    by (cases "process_files env sched (files s) 0 [] (start s)")
  obtain r' st1' where r': "process_files env sched' (files s) 0 [] (start s') = (r', st1')"
    by (cases "process_files env sched' (files s) 0 [] (start s')")
  from process_files_independent [of env sched "files s" 0 "[]" "start s" sched' "start s'"] r r'
  have eq: "r' = r" "reports st1' = reports st1" by simp_all
  from process_files_frame [of env sched "files s" 0 "[]" "start s"] r
  have fr: "document st1 = None" "downloads st1 = []" "console st1 = []" "settled st1"
    by simp_all
  from process_files_frame [of env sched' "files s" 0 "[]" "start s'"] r'
  have fr': "document st1' = None" "downloads st1' = []" "console st1' = []" "settled st1'"
    by simp_all
  show ?thesis
    using r r' eq fr fr' assms [symmetric]
    by (auto simp: handleGeneratePDF_def try_block_def Let_def
        split: promise.splits prod.splits)
qed

section \<open>Runs that succeed, and the sample environment\<close>

lemma handleGeneratePDF_succeeds:
  assumes "files s \<noteq> []"
    and "PDFDocument_create env = Resolved ()" and "embedFont env = Resolved ()"
    and "\<And>f. f \<in> set (files s) \<Longrightarrow> \<exists>p. process_file env f = Resolved p"
    and "\<And>d. \<exists>b. save env d = Resolved b"
  shows "\<exists>doc. document (handleGeneratePDF env sched s) = Some doc \<and>
               settled (handleGeneratePDF env sched s)"
proof -
  have "\<exists>d. fst (process_files env sched (files s) 0 [] (start s)) = Resolved d"
    by (rule process_files_all_resolved) (use assms(4) in auto)
  then obtain d st1 where r: "process_files env sched (files s) 0 [] (start s) = (Resolved d, st1)"
    by (metis prod.collapse)
  from process_files_frame [of env sched "files s" 0 "[]" "start s"] r
  have fr: "settled st1" by simp
  from assms(5) obtain b where b: "save env d = Resolved b" by blast
  from assms(1-3) r b fr show ?thesis
    by (simp add: handleGeneratePDF_def try_block_def Let_def)
qed

lemmas sample_defs = sample_env_def sample_file_def process_file_def fileToDataUrl_def
  resizeImage_def resizeImage_dims_def addWatermark_def dataUrlToBytes_def COMMA_def
  to_unsigned_long_def Let_def

lemma sample_process_file:
  "process_file sample_env (sample_file n 200 100) =
     assemble_page sample_env [200, 100] (200, 100) (utf16 n)"
  "process_file sample_env (sample_file n 10 20) =
     assemble_page sample_env [10, 20] (10, 20) (utf16 n)"
  "process_file sample_env (sample_file n 30 40) =
     assemble_page sample_env [30, 40] (30, 40) (utf16 n)"
  "process_file sample_env (sample_file n 50 60) =
     assemble_page sample_env [50, 60] (50, 60) (utf16 n)"
  by (simp_all add: sample_defs)

lemma sample_assemble_page:
  "\<exists>page. assemble_page sample_env b img nm = Resolved page"
  by (simp add: assemble_page_def sample_env_def scale_def Let_def)

lemma sample_broken: "process_file sample_env broken_file = Pending"
  by (simp add: sample_defs broken_file_def)

lemma sample_env_fields:
  "PDFDocument_create sample_env = Resolved ()" "embedFont sample_env = Resolved ()"
  "save sample_env d = Resolved [of_nat (length d)]"
  by (simp_all add: sample_env_def)

lemma sample_run_succeeds':
  assumes "files s = four_files"
  shows "\<exists>doc. document (handleGeneratePDF sample_env sched s) = Some doc \<and>
               settled (handleGeneratePDF sample_env sched s)"
proof (rule handleGeneratePDF_succeeds)
  show "files s \<noteq> []" by (simp add: assms four_files_def)
  fix f assume "f \<in> set (files s)"
  then show "\<exists>p. process_file sample_env f = Resolved p"
    by (auto simp: assms four_files_def sample_process_file sample_assemble_page)
qed (simp_all add: sample_env_fields)

lemma sample_run_succeeds:
  "\<exists>doc. document (handleGeneratePDF sample_env sched (idle four_files)) = Some doc \<and>
         settled (handleGeneratePDF sample_env sched (idle four_files))"
  by (rule sample_run_succeeds') (simp add: idle_def)

lemma sample_labels:
  "map (\<lambda>file. [removeFileExtension (name file)]) four_files =
     [[utf16 ''photo''], [utf16 ''archive.tar''], [[]], [utf16 ''noext'']]"
  by (simp add: removeFileExtension_def utf16_def lastIndexOf_def substring_def DOT_def
      four_files_def sample_file_def)

section \<open>The reported progress values\<close>

lemma handleGeneratePDF_reports_shape:
  "\<exists>m\<le>length (files s).
     reports (handleGeneratePDF env sched s) = [] \<or>
     reports (handleGeneratePDF env sched s) =
       0 # map (entry_progress (length (files s))) [0..<m] \<or>
     reports (handleGeneratePDF env sched s) =
       0 # map (entry_progress (length (files s))) [0..<m] @ [100]"
proof -
  obtain r st1 where r: "process_files env sched (files s) 0 [] (start s) = (r, st1)"
    by (cases "process_files env sched (files s) 0 [] (start s)")
  from process_files_reports [of "files s" env sched 0 "[]" "start s"] r
  obtain m where m: "m \<le> length (files s)"
    "reports st1 = 0 # map (entry_progress (length (files s))) [0..<m]"
    by auto
  have "reports (handleGeneratePDF env sched s) = [] \<or>
        reports (handleGeneratePDF env sched s) = [0] \<or>
        reports (handleGeneratePDF env sched s) = reports st1 \<or>
        reports (handleGeneratePDF env sched s) = reports st1 @ [100]"
    using r by (auto simp: handleGeneratePDF_def try_block_def Let_def
        split: promise.splits prod.splits)
  then consider "reports (handleGeneratePDF env sched s) = []"
    | "reports (handleGeneratePDF env sched s) = [0]"
    | "reports (handleGeneratePDF env sched s) = reports st1"
    | "reports (handleGeneratePDF env sched s) = reports st1 @ [100]"
    by blast
  then show ?thesis
  proof cases
    case 1
    then show ?thesis by (intro exI [of _ 0]) simp
  next
    case 2
    then show ?thesis by (intro exI [of _ 0]) simp
  next
    case 3
    with m show ?thesis by (intro exI [of _ m]) simp
  next
    case 4
    with m show ?thesis by (intro exI [of _ m]) simp
  qed
qed

lemma handleGeneratePDF_success_reports:
  assumes "document (handleGeneratePDF env sched s) = Some doc"
  shows "reports (handleGeneratePDF env sched s) =
           0 # map (entry_progress (length (files s))) [0..<length (files s)] @ [100]"
proof -
  from handleGeneratePDF_success [OF assms]
  have res: "fst (process_files env sched (files s) 0 [] (start s)) = Resolved doc"
    and rep: "reports (handleGeneratePDF env sched s) =
                reports (snd (process_files env sched (files s) 0 [] (start s))) @ [100]"
    by simp_all
  from process_files_reports [of "files s" env sched 0 "[]" "start s"] res
  have "reports (snd (process_files env sched (files s) 0 [] (start s))) =
          0 # map (entry_progress (length (files s))) [0..<length (files s)]"
    by auto
  with rep show ?thesis by simp
qed

lemma progress_of_four:
  "jmul (jdiv 0 4) 90 = 0" "jmul (jdiv 1 4) 90 = 45 / 2"
  "jmul (jdiv 2 4) 90 = 45" "jmul (jdiv 3 4) 90 = 135 / 2"
  by code_simp+

section \<open>The scaled sides against the exact ratio\<close>

lemma fl53_min:
  assumes "0 \<le> a" "0 \<le> b"
  shows "min (fl53 a) (fl53 b) = fl53 (min a b)"
proof (cases "a \<le> b")
  case True
  with fl53_mono [OF assms(1) True] show ?thesis by (simp add: min_def)
next
  case False
  then have "b \<le> a" by simp
  from fl53_mono [OF assms(2) this] False show ?thesis by (simp add: min_def)
qed

lemma scaled_close:
  fixes x \<rho> :: rat
  assumes x: "0 \<le> x" and p: "0 \<le> \<rho>"
  shows "x * \<rho> * (1 - 1 / 2 ^ 51) \<le> fl53 (x * fl53 \<rho>)"
    and "fl53 (x * fl53 \<rho>) \<le> x * \<rho> * (1 + 1 / 2 ^ 51)"
proof -
  define u :: rat where "u = 1 / 2 ^ 53"
  define q where "q = fl53 \<rho>"
  have u: "0 \<le> 1 - u" "0 \<le> 1 + u" by (simp_all add: u_def)
  have q0: "0 \<le> q" unfolding q_def by (rule fl53_nonneg [OF p])
  have ql: "\<rho> * (1 - u) \<le> q" and qu: "q \<le> \<rho> * (1 + u)"
    using fl53_lower [OF p] fl53_upper [OF p] by (simp_all add: q_def u_def algebra_simps)
  have xq0: "0 \<le> x * q" using x q0 by simp
  have xp0: "0 \<le> x * \<rho>" using x p by simp
  have xql: "x * \<rho> * (1 - u) \<le> x * q"
    using mult_left_mono [OF ql x] by (simp add: mult.assoc)
  have xqu: "x * q \<le> x * \<rho> * (1 + u)"
    using mult_left_mono [OF qu x] by (simp add: mult.assoc)
  have "x * \<rho> * (1 - 1 / 2 ^ 51) \<le> x * \<rho> * ((1 - u) * (1 - u))"
    by (rule mult_left_mono [OF _ xp0]) (simp add: u_def)
  also have "\<dots> = x * \<rho> * (1 - u) * (1 - u)" by simp
  also have "\<dots> \<le> x * q * (1 - u)" by (rule mult_right_mono [OF xql u(1)])
  also have "\<dots> = x * q - x * q / 2 ^ 53" by (simp add: u_def algebra_simps)
  also have "\<dots> \<le> fl53 (x * q)" by (rule fl53_lower [OF xq0])
  finally show "x * \<rho> * (1 - 1 / 2 ^ 51) \<le> fl53 (x * fl53 \<rho>)" by (simp add: q_def)
  have "fl53 (x * q) \<le> x * q + x * q / 2 ^ 53" by (rule fl53_upper [OF xq0])
  also have "\<dots> = x * q * (1 + u)" by (simp add: u_def algebra_simps)
  also have "\<dots> \<le> x * \<rho> * (1 + u) * (1 + u)" by (rule mult_right_mono [OF xqu u(2)])
  also have "\<dots> = x * \<rho> * ((1 + u) * (1 + u))" by simp
  also have "\<dots> \<le> x * \<rho> * (1 + 1 / 2 ^ 51)"
    by (rule mult_left_mono [OF _ xp0]) (simp add: u_def)
  finally show "fl53 (x * fl53 \<rho>) \<le> x * \<rho> * (1 + 1 / 2 ^ 51)" by (simp add: q_def)
qed

lemma resizeImage_dims_ratio:
  assumes "0 < w" "0 < h" "1600 < w \<or> 1200 < h"
  shows "resizeImage_dims w h 1600 1200 =
           (fl53 (of_nat w * fl53 (spec_ratio w h)), fl53 (of_nat h * fl53 (spec_ratio w h)))"
proof -
  from assms(3) have "(of_nat 1600 :: rat) < of_nat w \<or> (of_nat 1200 :: rat) < of_nat h"
    by (simp only: of_nat_less_iff)
  moreover have "min (fl53 (1600 / of_nat w)) (fl53 (1200 / of_nat h)) = fl53 (spec_ratio w h)"
    unfolding spec_ratio_def by (rule fl53_min) simp_all
  ultimately show ?thesis
    using assms(1,2) by (simp add: resizeImage_dims_def jdiv_def jmul_def Let_def)
qed

lemma resizeImage_size_close:
  assumes "0 < w" "0 < h" "1600 < w \<or> 1200 < h"
  shows "of_nat w * spec_ratio w h * (1 - 1 / 2 ^ 51) - 1
           < of_nat (fst (resizeImage_size w h 1600 1200))"
    and "of_nat (fst (resizeImage_size w h 1600 1200))
           \<le> of_nat w * spec_ratio w h * (1 + 1 / 2 ^ 51)"
    and "of_nat h * spec_ratio w h * (1 - 1 / 2 ^ 51) - 1
           < of_nat (snd (resizeImage_size w h 1600 1200))"
    and "of_nat (snd (resizeImage_size w h 1600 1200))
           \<le> of_nat h * spec_ratio w h * (1 + 1 / 2 ^ 51)"
proof -
  let ?p = "spec_ratio w h"
  let ?W = "fl53 (of_nat w * fl53 ?p)" and ?H = "fl53 (of_nat h * fl53 ?p)"
  have p: "0 \<le> ?p" by (simp add: spec_ratio_def)
  from resizeImage_dims_scaled [OF assms(3)] obtain r where
    dims: "resizeImage_dims w h 1600 1200 = (jmul (of_nat w) r, jmul (of_nat h) r)" and
    r: "0 \<le> r" "0 < w \<Longrightarrow> r \<le> fl53 (1600 / of_nat w)" "0 < h \<Longrightarrow> r \<le> fl53 (1200 / of_nat h)"
    by blast
  have bw: "(1600::rat) + 1600 / 2 ^ 53 + (1600 + 1600 / 2 ^ 53) / 2 ^ 53 < of_nat 1600 + 1"
    by simp
  have bh: "(1200::rat) + 1200 / 2 ^ 53 + (1200 + 1200 / 2 ^ 53) / 2 ^ 53 < of_nat 1200 + 1"
    by simp
  note sw = scaled_side [where M = 1600 and B = 1600 and d = w and r = r, OF _ bw _ r(1) r(2)]
  note sh = scaled_side [where M = 1200 and B = 1200 and d = h and r = r, OF _ bh _ r(1) r(3)]
  from dims resizeImage_dims_ratio [OF assms]
  have eq: "jmul (of_nat w) r = ?W" "jmul (of_nat h) r = ?H" by simp_all
  have cw: "fst (resizeImage_size w h 1600 1200) = nat \<lfloor>?W\<rfloor>" "0 \<le> ?W"
    using sw(2,3) eq by (simp_all add: resizeImage_size_def dims jmul_def)
  have ch: "snd (resizeImage_size w h 1600 1200) = nat \<lfloor>?H\<rfloor>" "0 \<le> ?H"
    using sh(2,3) eq by (simp_all add: resizeImage_size_def dims jmul_def)
  have fW: "(of_nat (nat \<lfloor>?W\<rfloor>) :: rat) = of_int \<lfloor>?W\<rfloor>" using cw(2) by simp
  have fH: "(of_nat (nat \<lfloor>?H\<rfloor>) :: rat) = of_int \<lfloor>?H\<rfloor>" using ch(2) by simp
  have fl: "?W < of_int \<lfloor>?W\<rfloor> + 1" "of_int \<lfloor>?W\<rfloor> \<le> ?W"
    "?H < of_int \<lfloor>?H\<rfloor> + 1" "of_int \<lfloor>?H\<rfloor> \<le> ?H"
    by linarith+
  note cl_w = scaled_close [OF _ p, of "of_nat w"]
  note cl_h = scaled_close [OF _ p, of "of_nat h"]
  have "of_nat w * ?p * (1 - 1 / 2 ^ 51) \<le> ?W" by (rule cl_w) simp
  with fl(1) show "of_nat w * spec_ratio w h * (1 - 1 / 2 ^ 51) - 1
           < of_nat (fst (resizeImage_size w h 1600 1200))"
    unfolding cw(1) fW by linarith
  have "?W \<le> of_nat w * ?p * (1 + 1 / 2 ^ 51)" by (rule cl_w) simp
  with fl(2) show "of_nat (fst (resizeImage_size w h 1600 1200))
           \<le> of_nat w * spec_ratio w h * (1 + 1 / 2 ^ 51)"
    unfolding cw(1) fW by linarith
  have "of_nat h * ?p * (1 - 1 / 2 ^ 51) \<le> ?H" by (rule cl_h) simp
  with fl(3) show "of_nat h * spec_ratio w h * (1 - 1 / 2 ^ 51) - 1
           < of_nat (snd (resizeImage_size w h 1600 1200))"
    unfolding ch(1) fH by linarith
  have "?H \<le> of_nat h * ?p * (1 + 1 / 2 ^ 51)" by (rule cl_h) simp
  with fl(4) show "of_nat (snd (resizeImage_size w h 1600 1200))
           \<le> of_nat h * spec_ratio w h * (1 + 1 / 2 ^ 51)"
    unfolding ch(1) fH by linarith
qed

lemma resize_3000_2000: "resizeImage_size 3000 2000 1600 1200 = (1600, 1066)"
proof -
  have q: "jdiv 1600 3000 = 4803839602528529 / 9007199254740992"
    "jdiv 1200 2000 = 5404319552844595 / 9007199254740992"
    by code_simp+
  have m: "jmul 3000 (4803839602528529 / 9007199254740992) = 1600"
    "jmul 2000 (4803839602528529 / 9007199254740992) = 4691249611844267 / 4398046511104"
    by code_simp+
  have t: "to_unsigned_long 1600 = 1600"
    "to_unsigned_long (4691249611844267 / 4398046511104) = 1066"
    by code_simp+
  show ?thesis
    by (simp add: resizeImage_size_def resizeImage_dims_def q m t)
qed

lemma resize_2156_100: "resizeImage_size 2156 100 1600 1200 = (1599, 74)"
proof -
  have q: "jdiv 1600 2156 = fl53 (400 / 539)" "jdiv 1200 100 = 12"
    by (simp_all add: jdiv_def fl53_numeral)
  have v: "fl53 (400 / 539) = 6684377925596283 / 9007199254740992" by code_simp
  have m: "jmul 2156 (6684377925596283 / 9007199254740992) = 7036874417766399 / 4398046511104"
    "jmul 100 (6684377925596283 / 9007199254740992) = 20399102556141 / 274877906944"
    by code_simp+
  have t: "to_unsigned_long (7036874417766399 / 4398046511104) = 1599"
    "to_unsigned_long (20399102556141 / 274877906944) = 74"
    by code_simp+
  show ?thesis
    by (simp add: resizeImage_size_def resizeImage_dims_def q v m t)
qed

section \<open>The selection during a run\<close>

lemma files_ui_step: "files s = files s' \<Longrightarrow> files (ui_step s e) = files (ui_step s' e)"
  by (cases e) (simp_all add: onDrop_def handleRemoveFile_def)

lemma files_foldl_ui_step:
  "files s = files s' \<Longrightarrow> files (foldl ui_step s evs) = files (foldl ui_step s' evs)"
proof (induction evs arbitrary: s s')
  case Nil
  then show ?case by simp
next
  case (Cons e evs)
  from Cons.IH [OF files_ui_step [OF Cons.prems]] show ?case
    by simp
qed

lemma process_files_selection:
  "fst (process_files env sched fs i pdfDoc st) = Resolved d \<Longrightarrow>
   files (ui (snd (process_files env sched fs i pdfDoc st))) =
     files (foldl ui_step (ui st) (concat (map sched [i..<length fs])))"
proof (induction env sched fs i pdfDoc st rule: process_files.induct)
  case (1 env sched fs i pdfDoc st)
  show ?case
  proof (cases "i < length fs")
    case False
    then show ?thesis by (simp add: process_files_done)
  next
    case True
    let ?st1 = "deliver (sched i) (setProgress (entry_progress (length fs) i) st)"
    from True "1.prems" obtain page where
      page: "process_file env (fs ! i) = Resolved page"
      by (auto simp: process_files_step Let_def split: promise.splits)
    with True "1.prems"
    have res: "fst (process_files env sched fs (Suc i) (pdfDoc @ [page]) ?st1) = Resolved d"
      by (simp add: process_files_step)
    have "files (ui (setProgress (entry_progress (length fs) i) st)) = files (ui st)" by simp
    from files_foldl_ui_step [OF this]
    have st1: "files (ui ?st1) = files (foldl ui_step (ui st) (sched i))"
      by (simp add: deliver_def)
    have "files (ui (snd (process_files env sched fs i pdfDoc st))) =
          files (ui (snd (process_files env sched fs (Suc i) (pdfDoc @ [page]) ?st1)))"
      using True page by (simp add: process_files_step)
    also have "\<dots> = files (foldl ui_step (ui ?st1) (concat (map sched [Suc i..<length fs])))"
      by (rule "1.IH" [OF True refl refl page res])
    also have "\<dots> = files (foldl ui_step (foldl ui_step (ui st) (sched i))
                         (concat (map sched [Suc i..<length fs])))"
      by (rule files_foldl_ui_step [OF st1])
    also have "\<dots> = files (foldl ui_step (ui st) (concat (map sched [i..<length fs])))"
      using True by (simp add: upt_conv_Cons)
    finally show ?thesis .
  qed
qed

lemma handleGeneratePDF_success_outcome:
  assumes "document (handleGeneratePDF env sched s) = Some doc"
  shows "\<exists>st1 b. process_files env sched (files s) 0 [] (start s) = (Resolved doc, st1) \<and>
           handleGeneratePDF env sched s =
             setIsGenerating False (start_download b (setProgress 100
               ((deliver (sched (length (files s))) st1)\<lparr>document := Some doc\<rparr>)))"
proof -
  obtain r st1 where r: "process_files env sched (files s) 0 [] (start s) = (r, st1)"
    by (cases "process_files env sched (files s) 0 [] (start s)")
  from process_files_frame [of env sched "files s" 0 "[]" "start s"] r
  have fr: "document st1 = None" "downloads st1 = []" by simp_all
  from assms r fr show ?thesis
    by (auto simp: handleGeneratePDF_def try_block_def Let_def
        split: if_splits promise.splits prod.splits)
qed

lemma handleGeneratePDF_selection:
  assumes "document (handleGeneratePDF env sched s) = Some doc"
  shows "files (ui (handleGeneratePDF env sched s)) =
           files (foldl ui_step s (concat (map sched [0..<Suc (length (files s))])))"
proof -
  from handleGeneratePDF_success_outcome [OF assms] obtain st1 b where
    r: "process_files env sched (files s) 0 [] (start s) = (Resolved doc, st1)" and
    out: "handleGeneratePDF env sched s =
             setIsGenerating False (start_download b (setProgress 100
               ((deliver (sched (length (files s))) st1)\<lparr>document := Some doc\<rparr>)))"
    by blast
  have "files (ui (start s)) = files s" by simp
  from files_foldl_ui_step [OF this]
  have "files (ui st1) = files (foldl ui_step s (concat (map sched [0..<length (files s)])))"
    using process_files_selection [of env sched "files s" 0 "[]" "start s" doc] r
    by simp
  from files_foldl_ui_step [OF this, of "sched (length (files s))"]
  have "files (foldl ui_step (ui st1) (sched (length (files s)))) =
        files (foldl ui_step s (concat (map sched [0..<Suc (length (files s))])))"
    by simp
  moreover have "files (ui (handleGeneratePDF env sched s)) =
        files (foldl ui_step (ui st1) (sched (length (files s))))"
    unfolding out by (simp add: deliver_def)
  ultimately show ?thesis by simp
qed

lemma busy_user_selection:
  "files (foldl ui_step (idle four_files) (concat (map busy_user [0..<5]))) = []"
  by (simp add: upt_rec busy_user_def idle_def four_files_def onDrop_def
      handleRemoveFile_def)

lemma quiet_run_keeps_selection:
  assumes "document (handleGeneratePDF env no_events s) = Some doc"
  shows "files (ui (handleGeneratePDF env no_events s)) = files s"
proof -
  have "concat (map no_events xs) = []" for xs :: "nat list"
    by (induction xs) (simp_all add: no_events_def)
  with handleGeneratePDF_selection [OF assms] show ?thesis by (simp add: no_events_def)
qed

section \<open>Rounding of negative numbers, halves and doubles\<close>

lemma fl53_minus: "fl53 (- x) = - fl53 x"
  by (simp add: fl53_def Let_def)

lemma fl53_abs_error: "\<bar>fl53 x - x\<bar> \<le> \<bar>x\<bar> / 2 ^ 53"
proof (cases "0 \<le> x")
  case True
  with fl53_rel [OF True] show ?thesis by simp
next
  case False
  then have n: "0 \<le> - x" by simp
  have "\<bar>fl53 x - x\<bar> = \<bar>fl53 (- x) - (- x)\<bar>"
    by (simp add: fl53_minus abs_minus_commute)
  also have "\<dots> \<le> (- x) / 2 ^ 53" by (rule fl53_rel [OF n])
  also have "\<dots> = \<bar>x\<bar> / 2 ^ 53" using False by simp
  finally show ?thesis .
qed

lemma ilog2_half:
  assumes "0 < x"
  shows "ilog2 (x / 2) = ilog2 x - 1"
proof (rule ilog2_unique)
  from ilog2_bounds [OF assms]
  have b: "2 powi ilog2 x \<le> x" "x < 2 powi (ilog2 x + 1)" by simp_all
  show "0 < x / 2" using assms by simp
  have "(2::rat) powi (ilog2 x - 1) = 2 powi ilog2 x / 2" by (simp add: power_int_diff)
  with b(1) show "2 powi (ilog2 x - 1) \<le> x / 2" by simp
  have "(2::rat) powi (ilog2 x - 1 + 1) = 2 powi (ilog2 x + 1) / 2"
    by (simp add: power_int_add)
  with b(2) show "x / 2 < 2 powi (ilog2 x - 1 + 1)" by simp
qed

lemma fl53_half_pos:
  assumes "0 < x"
  shows "fl53 (x / 2) = fl53 x / 2"
proof -
  have h: "0 < x / 2" using assms by simp
  have u: "ulp (x / 2) = ulp x / 2"
    by (simp add: ilog2_half [OF assms] power_int_diff)
  have "x / 2 / (ulp x / 2) = x / ulp x" by simp
  then show ?thesis
    unfolding fl53_pos [OF h] fl53_pos [OF assms] u by simp
qed

lemma fl53_half: "fl53 (x / 2) = fl53 x / 2"
proof -
  consider "x = 0" | "0 < x" | "0 < - x" by linarith
  then show ?thesis
  proof cases
    case 1
    then show ?thesis by simp
  next
    case 2
    then show ?thesis by (rule fl53_half_pos)
  next
    case 3
    from fl53_half_pos [OF 3] have "fl53 (- (x / 2)) = fl53 (- x) / 2" by simp
    then show ?thesis by (simp only: fl53_minus)
  qed
qed

lemma powi_plus_1: "(2::rat) powi (j + 1) = 2 powi j * 2"
  by (simp add: power_int_add)

lemma fl53_idem_pos:
  assumes "0 < x"
  shows "fl53 (fl53 x) = fl53 x"
proof -
  let ?k = "rne (x / ulp x)"
  from mantissa_bounds [OF assms] have m: "of_int (2 ^ 52) \<le> x / ulp x" "x / ulp x \<le> of_int (2 ^ 53)"
    by simp_all
  from rne_mono [OF m(1)] have lo: "2 ^ 52 \<le> ?k" by (simp only: rne_of_int)
  from rne_mono [OF m(2)] have hi: "?k \<le> 2 ^ 53" by (simp only: rne_of_int)
  have f: "fl53 x = of_int ?k * 2 powi (ilog2 x - 52)" by (rule fl53_pos [OF assms])
  show ?thesis
  proof (cases "?k = 2 ^ 53")
    case True
    have "fl53 x = of_int (2 ^ 52) * 2 powi (ilog2 x - 52 + 1)"
      unfolding f True powi_plus_1 by simp
    moreover have "fl53 (of_int (2 ^ 52) * 2 powi (ilog2 x - 52 + 1)) =
        of_int (2 ^ 52) * 2 powi (ilog2 x - 52 + 1)"
      by (rule fl53_exact) simp_all
    ultimately show ?thesis by simp
  next
    case False
    with hi lo have "0 < ?k" "?k < 2 ^ 53" by simp_all
    from fl53_exact [OF this] show ?thesis unfolding f .
  qed
qed

lemma fl53_idem: "fl53 (fl53 x) = fl53 x"
proof -
  consider "x = 0" | "0 < x" | "0 < - x" by linarith
  then show ?thesis
  proof cases
    case 1
    then show ?thesis by simp
  next
    case 2
    then show ?thesis by (rule fl53_idem_pos)
  next
    case 3
    from fl53_idem_pos [OF 3] show ?thesis by (simp add: fl53_minus)
  qed
qed

lemma jdiv_jsub_2: "jdiv (jsub a b) 2 = fl53 (a - b) / 2"
  by (simp add: jdiv_def jsub_def fl53_half fl53_idem)

lemma centred_title:
  "\<bar>jdiv (jsub a b) 2 - (a - b) / 2\<bar> \<le> \<bar>a - b\<bar> / 2 ^ 54"
proof -
  have "\<bar>jdiv (jsub a b) 2 - (a - b) / 2\<bar> = \<bar>fl53 (a - b) - (a - b)\<bar> / 2"
    by (simp add: jdiv_jsub_2 diff_divide_distrib [symmetric])
  also have "\<dots> \<le> \<bar>a - b\<bar> / 2 ^ 53 / 2"
    by (rule divide_right_mono [OF fl53_abs_error]) simp
  finally show ?thesis by simp
qed

lemma entry_progress_close:
  "\<bar>entry_progress n i - 90 * of_nat i / of_nat n\<bar> \<le> 90 * of_nat i / of_nat n / 2 ^ 51"
proof -
  let ?p = "(of_nat i :: rat) / of_nat n"
  have p: "0 \<le> ?p" by simp
  have e: "entry_progress n i = fl53 (90 * fl53 ?p)"
    by (simp add: jmul_def jdiv_def mult.commute)
  from scaled_close [OF _ p, of 90]
  have "90 * ?p * (1 - 1 / 2 ^ 51) \<le> fl53 (90 * fl53 ?p)"
    "fl53 (90 * fl53 ?p) \<le> 90 * ?p * (1 + 1 / 2 ^ 51)"
    by simp_all
  then have "\<bar>fl53 (90 * fl53 ?p) - 90 * ?p\<bar> \<le> 90 * ?p / 2 ^ 51"
    by (simp add: abs_le_iff algebra_simps)
  then show ?thesis unfolding e by simp
qed

section \<open>Entries that fail\<close>

text \<open>
  \<^verbatim>\<open>fileToDataUrl\<close> rejects its promise in \<^verbatim>\<open>reader.onerror\<close> (line 35).
  \<^verbatim>\<open>resizeImage\<close> and \<^verbatim>\<open>addWatermark\<close> settle theirs in \<^verbatim>\<open>onload\<close> only. When an image
  does not decode, the run stays at that \<^verbatim>\<open>await\<close>: neither \<^verbatim>\<open>catch\<close> nor \<^verbatim>\<open>finally\<close> is
  reached and \<^verbatim>\<open>isGenerating\<close> stays set.
\<close>

lemma isGenerating_foldl_ui_step [simp]:
  "isGenerating (foldl ui_step s evs) = isGenerating s"
proof (induction evs arbitrary: s)
  case Nil
  show ?case by simp
next
  case (Cons e evs)
  show ?case
    by (cases e) (simp_all add: Cons.IH onDrop_def handleRemoveFile_def)
qed

lemma process_files_pending:
  "i \<le> k \<Longrightarrow> k < length fs \<Longrightarrow>
   (\<And>j. i \<le> j \<Longrightarrow> j < k \<Longrightarrow> \<exists>p. process_file env (fs ! j) = Resolved p) \<Longrightarrow>
   process_file env (fs ! k) = Pending \<Longrightarrow>
   fst (process_files env sched fs i pdfDoc st) = Pending \<and>
   isGenerating (ui (snd (process_files env sched fs i pdfDoc st))) = isGenerating (ui st)"
proof (induction env sched fs i pdfDoc st rule: process_files.induct)
  case (1 env sched fs i pdfDoc st)
  from "1.prems" have lt: "i < length fs" by simp
  show ?case
  proof (cases "i = k")
    case True
    with lt "1.prems"(4) show ?thesis
      by (simp add: process_files_step deliver_def)
  next
    case False
    with "1.prems"(1) have le: "Suc i \<le> k" and ik: "i < k" by simp_all
    from "1.prems"(3) [OF order_refl ik] obtain page where
      page: "process_file env (fs ! i) = Resolved page" by blast
    have "fst (process_files env sched fs (Suc i) (pdfDoc @ [page])
             (deliver (sched i) (setProgress (entry_progress (length fs) i) st))) = Pending \<and>
          isGenerating (ui (snd (process_files env sched fs (Suc i) (pdfDoc @ [page])
             (deliver (sched i) (setProgress (entry_progress (length fs) i) st))))) =
          isGenerating (ui (deliver (sched i) (setProgress (entry_progress (length fs) i) st)))"
      by (rule "1.IH" [OF lt refl refl page le "1.prems"(2) _ "1.prems"(4)])
        (use "1.prems"(3) in auto)
    with lt page show ?thesis
      by (simp add: process_files_step deliver_def)
  qed
qed

lemma undecodable_image_pending:
  assumes "readAsDataURL env file = Resolved dataUrl" and "loadImage env dataUrl = None"
  shows "process_file env file = Pending"
  using assms by (simp add: process_file_def fileToDataUrl_def resizeImage_def)

lemma unreadable_file_rejected:
  assumes "readAsDataURL env file = Rejected e"
  shows "process_file env file = Rejected e"
  using assms by (simp add: process_file_def fileToDataUrl_def)

lemma process_files_rejected:
  "i \<le> k \<Longrightarrow> k < length fs \<Longrightarrow>
   (\<And>j. i \<le> j \<Longrightarrow> j < k \<Longrightarrow> \<exists>p. process_file env (fs ! j) = Resolved p) \<Longrightarrow>
   process_file env (fs ! k) = Rejected e \<Longrightarrow>
   fst (process_files env sched fs i pdfDoc st) = Rejected e"
proof (induction env sched fs i pdfDoc st rule: process_files.induct)
  case (1 env sched fs i pdfDoc st)
  from "1.prems" have lt: "i < length fs" by simp
  show ?case
  proof (cases "i = k")
    case True
    with lt "1.prems"(4) show ?thesis
      by (simp add: process_files_step)
  next
    case False
    with "1.prems"(1) have le: "Suc i \<le> k" and ik: "i < k" by simp_all
    from "1.prems"(3) [OF order_refl ik] obtain page where
      page: "process_file env (fs ! i) = Resolved page" by blast
    have "fst (process_files env sched fs (Suc i) (pdfDoc @ [page])
             (deliver (sched i) (setProgress (entry_progress (length fs) i) st))) = Rejected e"
      by (rule "1.IH" [OF lt refl refl page le "1.prems"(2) _ "1.prems"(4)])
        (use "1.prems"(3) in auto)
    with lt page show ?thesis
      by (simp add: process_files_step)
  qed
qed

text \<open>An entry whose promise never settles: the run stops inside the \<^verbatim>\<open>try\<close> block.\<close>

lemma handleGeneratePDF_first_pending:
  assumes "k < length (files s)"
    and "\<And>j. j < k \<Longrightarrow> \<exists>p. process_file env (files s ! j) = Resolved p"
    and "process_file env (files s ! k) = Pending"
    and "PDFDocument_create env = Resolved ()" and "embedFont env = Resolved ()"
  shows "\<not> settled (handleGeneratePDF env sched s) \<and>
         isGenerating (ui (handleGeneratePDF env sched s)) \<and>
         console (handleGeneratePDF env sched s) = [] \<and>
         downloads (handleGeneratePDF env sched s) = [] \<and>
         document (handleGeneratePDF env sched s) = None"
proof -
  obtain r st1 where r: "process_files env sched (files s) 0 [] (start s) = (r, st1)"
    by (cases "process_files env sched (files s) 0 [] (start s)")
  from process_files_pending [of 0 k "files s" env sched "[]" "start s"] assms(1-3) r
  have p: "r = Pending" "isGenerating (ui st1)" by simp_all
  from process_files_frame [of env sched "files s" 0 "[]" "start s"] r
  have fr: "document st1 = None" "downloads st1 = []" "console st1 = []" by simp_all
  from p fr r assms(1,4,5) show ?thesis
    by (auto simp: handleGeneratePDF_def try_block_def Let_def)
qed

text \<open>An entry whose promise is rejected: \<^verbatim>\<open>catch\<close> logs the error and \<^verbatim>\<open>finally\<close> runs.\<close>

lemma handleGeneratePDF_first_rejected:
  assumes "k < length (files s)"
    and "\<And>j. j < k \<Longrightarrow> \<exists>p. process_file env (files s ! j) = Resolved p"
    and "process_file env (files s ! k) = Rejected e"
    and "PDFDocument_create env = Resolved ()" and "embedFont env = Resolved ()"
  shows "settled (handleGeneratePDF env sched s) \<and>
         \<not> isGenerating (ui (handleGeneratePDF env sched s)) \<and>
         console (handleGeneratePDF env sched s) = [e] \<and>
         downloads (handleGeneratePDF env sched s) = [] \<and>
         document (handleGeneratePDF env sched s) = None"
proof -
  obtain r st1 where r: "process_files env sched (files s) 0 [] (start s) = (r, st1)"
    by (cases "process_files env sched (files s) 0 [] (start s)")
  from process_files_rejected [where i = 0 and k = k and fs = "files s" and env = env and sched = sched
      and e = e and pdfDoc = "[]" and st = "start s"] assms(1-3) r
  have p: "r = Rejected e" by simp
  from process_files_frame [of env sched "files s" 0 "[]" "start s"] r
  have fr: "document st1 = None" "downloads st1 = []" "console st1 = []" "settled st1"
    by simp_all
  from p fr r assms(1,4,5) show ?thesis
    by (auto simp: handleGeneratePDF_def try_block_def Let_def)
qed

lemma sample_unreadable: "process_file sample_env unreadable_file = Rejected (Error ''unreadable'')"
  by (rule unreadable_file_rejected) (simp add: sample_env_def unreadable_file_def)

text \<open>The sibling path: a file that cannot be read ends the run.\<close>

lemma unreadable_entry_aborts_run:
  "settled (handleGeneratePDF sample_env no_events (idle second_unreadable)) \<and>
   \<not> isGenerating (ui (handleGeneratePDF sample_env no_events (idle second_unreadable))) \<and>
   console (handleGeneratePDF sample_env no_events (idle second_unreadable)) =
     [Error ''unreadable''] \<and>
   downloads (handleGeneratePDF sample_env no_events (idle second_unreadable)) = [] \<and>
   document (handleGeneratePDF sample_env no_events (idle second_unreadable)) = None"
proof (rule handleGeneratePDF_first_rejected [where k = 1])
  show "1 < length (files (idle second_unreadable))"
    by (simp add: idle_def second_unreadable_def)
  show "process_file sample_env (files (idle second_unreadable) ! 1) =
          Rejected (Error ''unreadable'')"
    by (simp add: idle_def second_unreadable_def sample_unreadable)
  fix j :: nat assume "j < 1"
  then have "j = 0" by simp
  then show "\<exists>p. process_file sample_env (files (idle second_unreadable) ! j) = Resolved p"
    by (simp add: idle_def second_unreadable_def sample_process_file sample_assemble_page)
qed (simp_all add: sample_env_fields)

text \<open>
  What holds of every run: either nothing is saved and no download starts, or every
  entry has yielded its page and exactly one download carries the bytes of the saved
  document; after an entry \<open>k\<close> that yields no page, no later entry is started.
\<close>

lemma no_partial_export:
  "((downloads (handleGeneratePDF env sched s) = [] \<and>
     document (handleGeneratePDF env sched s) = None) \<or>
    (\<exists>doc pdfBytes.
       document (handleGeneratePDF env sched s) = Some doc \<and>
       save env doc = Resolved pdfBytes \<and>
       downloads (handleGeneratePDF env sched s) = [images_pdf pdfBytes] \<and>
       length doc = length (files s) \<and>
       (\<forall>i<length (files s). process_file env (files s ! i) = Resolved (doc ! i)))) \<and>
   (\<forall>k. k < length (files s) \<and> (\<forall>page. process_file env (files s ! k) \<noteq> Resolved page) \<longrightarrow>
      downloads (handleGeneratePDF env sched s) = [] \<and>
      document (handleGeneratePDF env sched s) = None \<and>
      length (reports (handleGeneratePDF env sched s)) \<le> k + 2)"
proof (intro conjI allI impI)
  show "(downloads (handleGeneratePDF env sched s) = [] \<and>
         document (handleGeneratePDF env sched s) = None) \<or>
        (\<exists>doc pdfBytes.
           document (handleGeneratePDF env sched s) = Some doc \<and>
           save env doc = Resolved pdfBytes \<and>
           downloads (handleGeneratePDF env sched s) = [images_pdf pdfBytes] \<and>
           length doc = length (files s) \<and>
           (\<forall>i<length (files s). process_file env (files s ! i) = Resolved (doc ! i)))"
  proof (cases "document (handleGeneratePDF env sched s)")
    case None
    with handleGeneratePDF_no_document [OF None] show ?thesis by simp
  next
    case (Some doc)
    from handleGeneratePDF_success [OF Some] handleGeneratePDF_pages [OF Some] Some
    show ?thesis by auto
  qed
next
  fix k
  assume k: "k < length (files s) \<and> (\<forall>page. process_file env (files s ! k) \<noteq> Resolved page)"
  from process_files_stops [of 0 k "files s" env sched "[]" "start s"] k
  have stop: "\<forall>d. fst (process_files env sched (files s) 0 [] (start s)) \<noteq> Resolved d"
    "length (reports (snd (process_files env sched (files s) 0 [] (start s)))) \<le> k + 2"
    by simp_all
  from handleGeneratePDF_failure [of env sched s] stop
  have none: "document (handleGeneratePDF env sched s) = None"
    and len: "length (reports (handleGeneratePDF env sched s)) \<le> k + 2"
    by auto
  from none show "document (handleGeneratePDF env sched s) = None" .
  from handleGeneratePDF_no_document [OF none]
  show "downloads (handleGeneratePDF env sched s) = []" .
  from len show "length (reports (handleGeneratePDF env sched s)) \<le> k + 2" .
qed

section \<open>The claims\<close>

text \<open>
  \<^bold>\<open>C1.\<close> A run that saves a document has read the \<open>N\<close> entries of the array
  \<^verbatim>\<open>files\<close> of its closure: the document has exactly \<open>N\<close> pages and page \<open>i\<close> is
  the page that processing entry \<open>i\<close> yields. Whatever the user drops or removes
  while the run waits (\<open>sched'\<close>), the document and the download are the same.
\<close>

theorem pages_follow_entries:
  assumes "document (handleGeneratePDF env sched s) = Some doc"
  shows "length doc = length (files s) \<and>
         (\<forall>i<length (files s). process_file env (files s ! i) = Resolved (doc ! i)) \<and>
         (\<forall>sched'. document (handleGeneratePDF env sched' s) = Some doc \<and>
                    downloads (handleGeneratePDF env sched' s) =
                    downloads (handleGeneratePDF env sched s))"
  using handleGeneratePDF_pages [OF assms] handleGeneratePDF_independent [of s s env _ sched]
    assms by simp

text \<open>
  Four sample files give four pages, the third from the third file; a user who
  empties the selection during the run gets the same document.
\<close>

theorem pages_follow_entries_witness:
  "\<exists>doc. document (handleGeneratePDF sample_env no_events (idle four_files)) = Some doc \<and>
         length doc = 4 \<and>
         process_file sample_env (sample_file ''.env'' 30 40) = Resolved (doc ! 2) \<and>
         document (handleGeneratePDF sample_env busy_user (idle four_files)) = Some doc \<and>
         files (ui (handleGeneratePDF sample_env busy_user (idle four_files))) = []"
proof -
  from sample_run_succeeds obtain doc where
    doc: "document (handleGeneratePDF sample_env no_events (idle four_files)) = Some doc"
    by blast
  have fs: "length (files (idle four_files)) = 4"
    "files (idle four_files) ! 2 = sample_file ''.env'' 30 40"
    by (simp_all add: idle_def four_files_def)
  from pages_follow_entries [OF doc]
  have pages: "length doc = length (files (idle four_files))"
    "process_file sample_env (files (idle four_files) ! 2) = Resolved (doc ! 2)"
    and busy: "document (handleGeneratePDF sample_env busy_user (idle four_files)) = Some doc"
    by (simp_all add: fs(1))
  from handleGeneratePDF_selection [OF busy]
  have "files (ui (handleGeneratePDF sample_env busy_user (idle four_files))) = []"
    by (simp only: fs(1) busy_user_selection eval_nat_numeral Suc_numeral)
      (simp add: busy_user_selection)
  with doc pages busy show ?thesis by (simp add: fs)
qed

text \<open>
  \<^bold>\<open>C2.\<close> An image of at most 1600 by 1200 pixels keeps its size. Otherwise each
  side is multiplied by \<open>min(1600 / origW, 1200 / origH)\<close> in double arithmetic and cut
  to whole pixels when it becomes the size of the canvas: the output is at most 1600
  wide and 1200 high, each side lies within one pixel (and a relative rounding error
  of \<open>2\<^sup>-\<^sup>5\<^sup>1\<close>) below the exactly scaled side, and width to height is the original
  aspect ratio up to that truncation,
  \<open>\<bar>width * origH - height * origW\<bar> \<le> max origW origH\<close>, for sides below \<open>2\<^sup>3\<^sup>2\<close>.
\<close>

theorem resized_canvas_size:
  "(w \<le> 1600 \<and> h \<le> 1200 \<longrightarrow> resizeImage_size w h 1600 1200 = (w, h)) \<and>
   fst (resizeImage_size w h 1600 1200) \<le> 1600 \<and>
   snd (resizeImage_size w h 1600 1200) \<le> 1200 \<and>
   (0 < w \<and> 0 < h \<and> (1600 < w \<or> 1200 < h) \<longrightarrow>
      of_nat w * spec_ratio w h * (1 - 1 / 2 ^ 51) - 1
        < of_nat (fst (resizeImage_size w h 1600 1200)) \<and>
      of_nat (fst (resizeImage_size w h 1600 1200))
        \<le> of_nat w * spec_ratio w h * (1 + 1 / 2 ^ 51) \<and>
      of_nat h * spec_ratio w h * (1 - 1 / 2 ^ 51) - 1
        < of_nat (snd (resizeImage_size w h 1600 1200)) \<and>
      of_nat (snd (resizeImage_size w h 1600 1200))
        \<le> of_nat h * spec_ratio w h * (1 + 1 / 2 ^ 51)) \<and>
   (w < 2 ^ 32 \<and> h < 2 ^ 32 \<longrightarrow>
      \<bar>int (fst (resizeImage_size w h 1600 1200)) * int h -
       int (snd (resizeImage_size w h 1600 1200)) * int w\<bar> \<le> int (max w h))"
  using resizeImage_size_spec [of w h] resizeImage_size_close [of w h] by blast

text \<open>An image of 800 by 600 is unchanged; one of 3000 by 2000 is scaled within these bounds.\<close>

theorem resized_canvas_size_witness:
  "resizeImage_size 800 600 1600 1200 = (800, 600) \<and>
   fst (resizeImage_size 3000 2000 1600 1200) \<le> 1600 \<and>
   snd (resizeImage_size 3000 2000 1600 1200) \<le> 1200 \<and>
   of_nat 3000 * spec_ratio 3000 2000 * (1 - 1 / 2 ^ 51) - 1
     < of_nat (fst (resizeImage_size 3000 2000 1600 1200)) \<and>
   of_nat (fst (resizeImage_size 3000 2000 1600 1200))
     \<le> of_nat 3000 * spec_ratio 3000 2000 * (1 + 1 / 2 ^ 51) \<and>
   of_nat 2000 * spec_ratio 3000 2000 * (1 - 1 / 2 ^ 51) - 1
     < of_nat (snd (resizeImage_size 3000 2000 1600 1200)) \<and>
   of_nat (snd (resizeImage_size 3000 2000 1600 1200))
     \<le> of_nat 2000 * spec_ratio 3000 2000 * (1 + 1 / 2 ^ 51) \<and>
   \<bar>int (fst (resizeImage_size 3000 2000 1600 1200)) * int 2000 -
    int (snd (resizeImage_size 3000 2000 1600 1200)) * int 3000\<bar> \<le> int (max 3000 2000)"
proof -
  have a: "(800::nat) \<le> 1600 \<and> (600::nat) \<le> 1200" by simp
  have b: "(0::nat) < 3000 \<and> (0::nat) < 2000 \<and> ((1600::nat) < 3000 \<or> (1200::nat) < 2000)"
    by simp
  have c: "(3000::nat) < 2 ^ 32 \<and> (2000::nat) < 2 ^ 32" by simp
  from resized_canvas_size [of 800 600] a
  have "resizeImage_size 800 600 1600 1200 = (800, 600)" by blast
  with resized_canvas_size [of 3000 2000] b c show ?thesis by blast
qed

text \<open>
  The aspect ratio is not kept exactly: 3000 by 2000 becomes 1600 by 1066, and
  \<open>1600 / 1066\<close> is not \<open>3 / 2\<close>.
\<close>

theorem resize_changes_aspect_ratio_counterexample:
  "resizeImage_size 3000 2000 1600 1200 = (1600, 1066) \<and>
   (of_nat 1600 :: rat) / of_nat 1066 \<noteq> of_nat 3000 / of_nat 2000"
  by (simp add: resize_3000_2000)

text \<open>
  \<^bold>\<open>C3.\<close> A run that saves a document over \<open>n\<close> entries has reported 0, then
  \<^verbatim>\<open>(i / n) * 90\<close> at the start of each entry \<open>i\<close> from 0 to \<open>n - 1\<close>, then 100. The
  double \<^verbatim>\<open>(i / n) * 90\<close> is the exact \<open>90 * i / n\<close> up to a relative rounding error of
  \<open>2\<^sup>-\<^sup>5\<^sup>1\<close>, and the values that any run reports, finished or not, never
  decrease.
\<close>

theorem progress_reports:
  "(\<forall>doc. document (handleGeneratePDF env sched s) = Some doc \<longrightarrow>
      reports (handleGeneratePDF env sched s) =
        0 # map (\<lambda>i. jmul (jdiv (of_nat i) (of_nat (length (files s)))) 90)
              [0..<length (files s)] @ [100]) \<and>
   (\<forall>i. \<bar>jmul (jdiv (of_nat i) (of_nat (length (files s)))) 90 -
          90 * of_nat i / of_nat (length (files s))\<bar>
        \<le> 90 * of_nat i / of_nat (length (files s)) / 2 ^ 51) \<and>
   sorted (reports (handleGeneratePDF env sched s))"
proof (intro conjI)
  show "\<forall>doc. document (handleGeneratePDF env sched s) = Some doc \<longrightarrow>
      reports (handleGeneratePDF env sched s) =
        0 # map (\<lambda>i. jmul (jdiv (of_nat i) (of_nat (length (files s)))) 90)
              [0..<length (files s)] @ [100]"
    by (auto dest: handleGeneratePDF_success_reports)
  show "\<forall>i. \<bar>jmul (jdiv (of_nat i) (of_nat (length (files s)))) 90 -
          90 * of_nat i / of_nat (length (files s))\<bar>
        \<le> 90 * of_nat i / of_nat (length (files s)) / 2 ^ 51"
    by (intro allI entry_progress_close)
  from handleGeneratePDF_reports_shape [of s env sched]
  obtain m where m: "m \<le> length (files s)" and
    shape: "reports (handleGeneratePDF env sched s) = [] \<or>
     reports (handleGeneratePDF env sched s) =
       0 # map (entry_progress (length (files s))) [0..<m] \<or>
     reports (handleGeneratePDF env sched s) =
       0 # map (entry_progress (length (files s))) [0..<m] @ [100]"
    by blast
  from sorted_reports [OF m]
  have full: "sorted (0 # map (entry_progress (length (files s))) [0..<m] @ [100])" .
  then have "sorted ((0 # map (entry_progress (length (files s))) [0..<m]) @ [100])" by simp
  then have "sorted (0 # map (entry_progress (length (files s))) [0..<m])"
    unfolding sorted_append by blast
  with full shape show "sorted (reports (handleGeneratePDF env sched s))" by auto
qed

text \<open>With four entries the reports are 0, 0, 22.5, 45, 67.5 and 100.\<close>

theorem progress_reports_witness:
  "reports (handleGeneratePDF sample_env no_events (idle four_files)) =
     [0, 0, 45 / 2, 45, 135 / 2, 100] \<and>
   sorted (reports (handleGeneratePDF sample_env no_events (idle four_files)))"
proof -
  from sample_run_succeeds obtain doc where
    doc: "document (handleGeneratePDF sample_env no_events (idle four_files)) = Some doc"
    by blast
  have n: "length (files (idle four_files)) = 4" by (simp add: idle_def four_files_def)
  have u: "[0..<4] = [0, 1, 2, 3]" by (simp add: upt_rec)
  note t = progress_reports [of sample_env no_events "idle four_files", unfolded n]
  from t doc
  have "reports (handleGeneratePDF sample_env no_events (idle four_files)) =
          0 # map (\<lambda>i. jmul (jdiv (of_nat i) (of_nat 4)) 90) [0..<4] @ [100]"
    by blast
  then have "reports (handleGeneratePDF sample_env no_events (idle four_files)) =
          [0, 0, 45 / 2, 45, 135 / 2, 100]"
    by (simp add: u progress_of_four)
  moreover from t
  have "sorted (reports (handleGeneratePDF sample_env no_events (idle four_files)))"
    by blast
  ultimately show ?thesis by blast
qed

text \<open>
  \<^bold>\<open>C4.\<close> The claim is that any failure of an entry, a decode error included, makes
  the run abort at that error with nothing exported. The run does end so when a promise
  is rejected (\<open>unreadable_entry_aborts_run\<close>). It does not when an image does not decode:
  with the second of four files undecodable, processing that entry never settles, and
  the run stays at its \<^verbatim>\<open>await\<close>. Nothing is exported, but the call never comes to its
  end, nothing is logged and \<^verbatim>\<open>isGenerating\<close> stays set.
\<close>

theorem undecodable_entry_does_not_abort:
  "readAsDataURL sample_env broken_file = Resolved [1] \<and>
   loadImage sample_env [1] = None \<and>
   process_file sample_env (files (idle second_broken) ! 1) = Pending \<and>
   \<not> settled (handleGeneratePDF sample_env no_events (idle second_broken)) \<and>
   isGenerating (ui (handleGeneratePDF sample_env no_events (idle second_broken))) \<and>
   console (handleGeneratePDF sample_env no_events (idle second_broken)) = [] \<and>
   downloads (handleGeneratePDF sample_env no_events (idle second_broken)) = [] \<and>
   document (handleGeneratePDF sample_env no_events (idle second_broken)) = None"
proof -
  have rd: "readAsDataURL sample_env broken_file = Resolved [1]"
    and ld: "loadImage sample_env [1] = None"
    by (simp_all add: sample_env_def broken_file_def)
  have k: "files (idle second_broken) ! 1 = broken_file"
    by (simp add: idle_def second_broken_def)
  have p: "process_file sample_env (files (idle second_broken) ! 1) = Pending"
    unfolding k by (rule undecodable_image_pending [OF rd ld])
  have "\<not> settled (handleGeneratePDF sample_env no_events (idle second_broken)) \<and>
   isGenerating (ui (handleGeneratePDF sample_env no_events (idle second_broken))) \<and>
   console (handleGeneratePDF sample_env no_events (idle second_broken)) = [] \<and>
   downloads (handleGeneratePDF sample_env no_events (idle second_broken)) = [] \<and>
   document (handleGeneratePDF sample_env no_events (idle second_broken)) = None"
  proof (rule handleGeneratePDF_first_pending [where k = 1])
    show "1 < length (files (idle second_broken))" by (simp add: idle_def second_broken_def)
    show "process_file sample_env (files (idle second_broken) ! 1) = Pending" by (rule p)
    fix j :: nat assume "j < 1"
    then have "j = 0" by simp
    then show "\<exists>p. process_file sample_env (files (idle second_broken) ! j) = Resolved p"
      by (simp add: idle_def second_broken_def sample_process_file sample_assemble_page)
  qed (simp_all add: sample_env_fields)
  with rd ld p show ?thesis by blast
qed

text \<open>
  \<^bold>\<open>C5.\<close> For a watermark text that is not empty and an image width below
  \<open>2\<^sup>3\<^sup>2\<close>, the font size computed in double arithmetic is exactly
  \<open>\<lfloor>(W / length T) * 1.6\<rfloor>\<close> of exact arithmetic.
\<close>

theorem watermark_font_size:
  assumes "watermarkText \<noteq> []" and "w < 2 ^ 32"
  shows "fontSize w watermarkText =
           Some \<lfloor>(of_nat w / of_nat (length watermarkText)) * (16 / 10 :: rat)\<rfloor>"
proof -
  have "(of_nat w / of_nat (length watermarkText)) * (16 / 10 :: rat) =
          of_nat (8 * w) / of_nat (5 * length watermarkText)"
    by simp
  then have "\<lfloor>(of_nat w / of_nat (length watermarkText)) * (16 / 10 :: rat)\<rfloor> =
               int ((8 * w) div (5 * length watermarkText))"
    by (simp only: floor_divide_of_nat_eq)
  with fontSize_exact [OF assms] show ?thesis by simp
qed

text \<open>The text of the run on an image 1600 pixels wide: 213.\<close>

theorem watermark_font_size_witness:
  "utf16 ''Cleide Fotos'' \<noteq> [] \<and> (1600::nat) < 2 ^ 32 \<and>
   fontSize 1600 (utf16 ''Cleide Fotos'') = Some 213"
proof -
  have t: "utf16 ''Cleide Fotos'' \<noteq> []" and l: "length (utf16 ''Cleide Fotos'') = 12"
    by (simp_all add: utf16_def)
  have w: "(1600::nat) < 2 ^ 32" by simp
  have "\<lfloor>(of_nat 1600 / of_nat 12) * (16 / 10 :: rat)\<rfloor> = 213"
    by (rule floor_unique) simp_all
  with watermark_font_size [OF t w] t w show ?thesis by (simp add: l)
qed

text \<open>
  \<^bold>\<open>C6.\<close> A file name without a dot is its own label; a file name is otherwise cut
  before its last dot, so only the final extension goes.
\<close>

theorem removeFileExtension_strips_final_extension:
  "(DOT \<notin> set filename \<longrightarrow> removeFileExtension filename = filename) \<and>
   (\<forall>stem ext. filename = stem @ DOT # ext \<and> DOT \<notin> set ext \<longrightarrow>
      removeFileExtension filename = stem)"
  by (auto simp: removeFileExtension_no_dot removeFileExtension_last_dot)

text \<open>The three names of the specification.\<close>

theorem removeFileExtension_strips_final_extension_witness:
  "removeFileExtension (utf16 ''photo.jpg'') = utf16 ''photo'' \<and>
   removeFileExtension (utf16 ''archive.tar.gz'') = utf16 ''archive.tar'' \<and>
   removeFileExtension (utf16 ''noext'') = utf16 ''noext''"
proof -
  have 1: "utf16 ''photo.jpg'' = utf16 ''photo'' @ DOT # utf16 ''jpg''" "DOT \<notin> set (utf16 ''jpg'')"
    by (simp_all add: utf16_def DOT_def)
  have 2: "utf16 ''archive.tar.gz'' = utf16 ''archive.tar'' @ DOT # utf16 ''gz''"
    "DOT \<notin> set (utf16 ''gz'')"
    by (simp_all add: utf16_def DOT_def)
  have 3: "DOT \<notin> set (utf16 ''noext'')"
    by (simp add: utf16_def DOT_def)
  show ?thesis
    using removeFileExtension_strips_final_extension [of "utf16 ''photo.jpg''"]
      removeFileExtension_strips_final_extension [of "utf16 ''archive.tar.gz''"]
      removeFileExtension_strips_final_extension [of "utf16 ''noext''"] 1 2 3
    by blast
qed

text \<open>
  \<^bold>\<open>C7.\<close> The page assembled for an embedded image of \<open>w\<close> by \<open>h\<close> pixels (sides below
  \<open>2\<^sup>3\<^sup>2\<close>) measures \<open>w + 100\<close> by \<open>h + 150\<close>; the image is drawn once, at
  \<open>(50, 100)\<close>, \<open>w\<close> wide and \<open>h\<close> high; the title is the label, drawn once at size
  28 in black at height 50, its \<open>x\<close> being \<^verbatim>\<open>(page.getWidth() - titleWidth) / 2\<close> for the
  width that the font measures for the label at size 28: the exact half of the
  difference up to one rounding of a double, so the title is centred.
\<close>

theorem page_layout:
  assumes "assemble_page env imageBytes (w, h) file_name = Resolved page"
    and "w < 2 ^ 32" and "h < 2 ^ 32"
  shows "page_width page = of_nat w + 100 \<and> page_height page = of_nat h + 150 \<and>
         page_images page =
           [\<lparr>di_bytes = imageBytes, di_x = 50, di_y = 100,
             di_width = of_nat w, di_height = of_nat h\<rparr>] \<and>
         (\<exists>titleWidth.
            widthOfTextAtSize env (removeFileExtension file_name) 28 = Inr titleWidth \<and>
            page_texts page =
              [\<lparr>dt_text = removeFileExtension file_name,
                dt_x = jdiv (jsub (page_width page) titleWidth) 2,
                dt_y = 50, dt_size = 28, dt_color = (0, 0, 0)\<rparr>] \<and>
            \<bar>jdiv (jsub (page_width page) titleWidth) 2 - (page_width page - titleWidth) / 2\<bar>
              \<le> \<bar>page_width page - titleWidth\<bar> / 2 ^ 54)"
proof -
  have w: "w < 2 ^ 53" "w + 100 < 2 ^ 53" using assms(2) by simp_all
  have h: "h < 2 ^ 53" "h + 150 < 2 ^ 53" using assms(3) by simp_all
  have sw: "jmul (of_nat w) 1 = of_nat w" and sh: "jmul (of_nat h) 1 = of_nat h"
    using w h by (simp_all add: scale_1)
  have pw: "jadd (of_nat w) 100 = of_nat w + 100"
    using jadd_of_nat [OF w(2)] by simp
  have ph: "jadd (of_nat h) 150 = of_nat h + 150"
    using jadd_of_nat [OF h(2)] by simp
  from assemble_page_Resolved [OF assms(1)] obtain titleWidth where
    tw: "widthOfTextAtSize env (removeFileExtension file_name) 28 = Inr titleWidth" and
    pg: "page_width page = of_nat w + 100" "page_height page = of_nat h + 150"
      "page_images page =
         [\<lparr>di_bytes = imageBytes, di_x = 50, di_y = 100,
           di_width = of_nat w, di_height = of_nat h\<rparr>]"
      "page_texts page =
         [\<lparr>dt_text = removeFileExtension file_name,
           dt_x = jdiv (jsub (page_width page) titleWidth) 2,
           dt_y = 50, dt_size = 28, dt_color = (0, 0, 0)\<rparr>]"
    by (auto simp: sw sh pw ph)
  have "\<bar>jdiv (jsub (page_width page) titleWidth) 2 - (page_width page - titleWidth) / 2\<bar>
          \<le> \<bar>page_width page - titleWidth\<bar> / 2 ^ 54"
    by (rule centred_title)
  with tw pg show ?thesis by blast
qed

text \<open>A sample image of 200 by 100 named \<^verbatim>\<open>photo.jpg\<close>.\<close>

theorem page_layout_witness:
  "\<exists>page. assemble_page sample_env [200, 100] (200, 100) (utf16 ''photo.jpg'') = Resolved page \<and>
          page_width page = 300 \<and> page_height page = 250 \<and>
          page_images page =
            [\<lparr>di_bytes = [200, 100], di_x = 50, di_y = 100, di_width = 200, di_height = 100\<rparr>] \<and>
          page_texts page =
            [\<lparr>dt_text = utf16 ''photo'', dt_x = 115, dt_y = 50, dt_size = 28,
              dt_color = (0, 0, 0)\<rparr>]"
proof -
  from sample_assemble_page [of "[200, 100]" "(200, 100)" "utf16 ''photo.jpg''"]
  obtain page where
    p: "assemble_page sample_env [200, 100] (200, 100) (utf16 ''photo.jpg'') = Resolved page"
    by blast
  have l: "removeFileExtension (utf16 ''photo.jpg'') = utf16 ''photo''"
    by (simp add: removeFileExtension_def utf16_def lastIndexOf_def substring_def DOT_def)
  have tw: "widthOfTextAtSize sample_env (utf16 ''photo'') 28 = Inr 70"
    by (simp add: sample_env_def utf16_def)
  have x: "jdiv (jsub 300 70) 2 = 115" by code_simp
  from page_layout [OF p] obtain titleWidth where
    sz: "page_width page = 300" "page_height page = 250" and
    im: "page_images page =
       [\<lparr>di_bytes = [200, 100], di_x = 50, di_y = 100, di_width = 200, di_height = 100\<rparr>]" and
    t: "widthOfTextAtSize sample_env (removeFileExtension (utf16 ''photo.jpg'')) 28 =
          Inr titleWidth" and
    tx: "page_texts page =
          [\<lparr>dt_text = removeFileExtension (utf16 ''photo.jpg''),
            dt_x = jdiv (jsub (page_width page) titleWidth) 2,
            dt_y = 50, dt_size = 28, dt_color = (0, 0, 0)\<rparr>]"
    by auto
  from t have "titleWidth = 70" by (simp add: l tw)
  with tx have "page_texts page =
      [\<lparr>dt_text = utf16 ''photo'', dt_x = 115, dt_y = 50, dt_size = 28,
        dt_color = (0, 0, 0)\<rparr>]"
    by (simp add: l sz x)
  with p sz im show ?thesis by blast
qed

text \<open>
  \<^bold>\<open>C8.\<close> Two runs on the same entries that both save a document, started in any two
  states of the component, with any two sets of collaborators and any user events,
  save documents of the same number of pages whose titles are, page by page, the labels
  of the entries; with the same collaborators the two documents are equal.
\<close>

theorem rerun_gives_same_structure:
  assumes "files s1 = files s2"
    and "document (handleGeneratePDF env1 sched1 s1) = Some doc1"
    and "document (handleGeneratePDF env2 sched2 s2) = Some doc2"
  shows "length doc1 = length doc2 \<and>
         map (\<lambda>page. map dt_text (page_texts page)) doc1 =
           map (\<lambda>file. [removeFileExtension (name file)]) (files s1) \<and>
         map (\<lambda>page. map dt_text (page_texts page)) doc2 =
           map (\<lambda>file. [removeFileExtension (name file)]) (files s1) \<and>
         (env1 = env2 \<longrightarrow> doc1 = doc2)"
proof -
  have titles: "map (\<lambda>page. map dt_text (page_texts page)) doc =
                  map (\<lambda>file. [removeFileExtension (name file)]) (files s)"
    if "document (handleGeneratePDF env sched s) = Some doc" for env sched s doc
  proof (rule nth_equalityI)
    from handleGeneratePDF_pages [OF that]
    have len: "length doc = length (files s)"
      and pg: "\<And>i. i < length (files s) \<Longrightarrow> process_file env (files s ! i) = Resolved (doc ! i)"
      by simp_all
    show "length (map (\<lambda>page. map dt_text (page_texts page)) doc) =
          length (map (\<lambda>file. [removeFileExtension (name file)]) (files s))"
      using len by simp
    fix i assume "i < length (map (\<lambda>page. map dt_text (page_texts page)) doc)"
    then have i: "i < length (files s)" using len by simp
    from process_file_title [OF pg [OF i]] i len
    show "map (\<lambda>page. map dt_text (page_texts page)) doc ! i =
          map (\<lambda>file. [removeFileExtension (name file)]) (files s) ! i"
      by simp
  qed
  from handleGeneratePDF_pages [OF assms(2)] handleGeneratePDF_pages [OF assms(3)] assms(1)
  have "length doc1 = length doc2" by simp
  moreover have "env1 = env2 \<longrightarrow> doc1 = doc2"
    using handleGeneratePDF_independent [OF assms(1), of env1 sched1 sched2] assms(2,3)
    by auto
  ultimately show ?thesis
    using titles [OF assms(2)] titles [OF assms(3)] assms(1) by simp
qed

text \<open>A second run, started in the state that a first run leaves, with a busy user.\<close>

theorem rerun_gives_same_structure_witness:
  "\<exists>doc1 doc2.
     document (handleGeneratePDF sample_env no_events (idle four_files)) = Some doc1 \<and>
     document (handleGeneratePDF sample_env busy_user
       (ui (handleGeneratePDF sample_env no_events (idle four_files)))) = Some doc2 \<and>
     length doc1 = length doc2 \<and>
     map (\<lambda>page. map dt_text (page_texts page)) doc1 =
       [[utf16 ''photo''], [utf16 ''archive.tar''], [[]], [utf16 ''noext'']] \<and>
     map (\<lambda>page. map dt_text (page_texts page)) doc2 =
       [[utf16 ''photo''], [utf16 ''archive.tar''], [[]], [utf16 ''noext'']] \<and>
     doc1 = doc2"
proof -
  let ?s2 = "ui (handleGeneratePDF sample_env no_events (idle four_files))"
  from sample_run_succeeds obtain doc1 where
    d1: "document (handleGeneratePDF sample_env no_events (idle four_files)) = Some doc1"
    by blast
  have f: "files (idle four_files) = files ?s2" "files (idle four_files) = four_files"
    using quiet_run_keeps_selection [OF d1] by (simp_all add: idle_def)
  from sample_run_succeeds' [of ?s2] f obtain doc2 where
    d2: "document (handleGeneratePDF sample_env busy_user ?s2) = Some doc2"
    by auto
  from rerun_gives_same_structure [OF f(1) d1 d2] d1 d2 show ?thesis
    by (simp add: f(2) sample_labels)
qed

text \<open>
  \<^bold>\<open>C9.\<close> Called with an empty selection, \<^verbatim>\<open>handleGeneratePDF\<close> returns at once: the
  component's state is the one it was called in, nothing is reported, saved,
  downloaded or logged.
\<close>

theorem empty_selection_is_noop:
  assumes "files s = []"
  shows "handleGeneratePDF env sched s =
           \<lparr>ui = s, reports = [], document = None, downloads = [], console = [],
            settled = True\<rparr>"
  using assms by (rule handleGeneratePDF_empty)

text \<open>The empty selection with the sample collaborators.\<close>

theorem empty_selection_is_noop_witness:
  "files (idle []) = [] \<and>
   handleGeneratePDF sample_env busy_user (idle []) =
     \<lparr>ui = idle [], reports = [], document = None, downloads = [], console = [],
      settled = True\<rparr>"
proof -
  have h: "files (idle []) = []" by (simp add: idle_def)
  from empty_selection_is_noop [OF h] h show ?thesis by simp
qed

text \<open>
  \<^bold>\<open>C10.\<close> A file name whose only dot is its first character has the empty label,
  and the title of its page is the empty text.
\<close>

theorem dotfile_label_is_empty:
  assumes "DOT \<notin> set rest"
  shows "removeFileExtension (DOT # rest) = [] \<and>
         (\<forall>env file page. name file = DOT # rest \<and> process_file env file = Resolved page \<longrightarrow>
            map dt_text (page_texts page) = [[]])"
proof -
  from removeFileExtension_last_dot [OF assms, of "[]"]
  have e: "removeFileExtension (DOT # rest) = []" by simp
  then show ?thesis by (auto dest: process_file_title)
qed

text \<open>The file \<^verbatim>\<open>.env\<close>.\<close>

theorem dotfile_label_is_empty_witness:
  "removeFileExtension (utf16 ''.env'') = [] \<and>
   (\<exists>page. process_file sample_env (sample_file ''.env'' 30 40) = Resolved page \<and>
           map dt_text (page_texts page) = [[]])"
proof -
  have d: "DOT \<notin> set (utf16 ''env'')" and n: "utf16 ''.env'' = DOT # utf16 ''env''"
    by (simp_all add: utf16_def DOT_def)
  obtain page where p: "process_file sample_env (sample_file ''.env'' 30 40) = Resolved page"
    using sample_assemble_page [of "[30, 40]" "(30, 40)" "utf16 ''.env''"]
    by (auto simp: sample_process_file)
  have "name (sample_file ''.env'' 30 40) = DOT # utf16 ''env''"
    by (simp add: sample_file_def n)
  with dotfile_label_is_empty [OF d] p show ?thesis
    unfolding n by blast
qed

end
